theory Spec2Isabelle
  imports Main
begin

section \<open>The host: a timer scheduler\<close>

text \<open>
  The scripts run against the browser's \<^verbatim>\<open>setTimeout\<close> / \<^verbatim>\<open>clearTimeout\<close>.
  The host is modelled as a virtual clock and the list of pending timers, in creation
  order. A handle is a fresh positive integer (so a handle is truthy in JavaScript);
  a timer fires once, no earlier than its due time; of two timers due at the same
  time the one created first fires first. Time is counted in whole milliseconds.
\<close>

record 'cb timer =
  tm_handle :: nat
  tm_due :: nat
  tm_callback :: 'cb

record 'cb scheduler =
  now :: nat
  last_handle :: nat
  pending :: "'cb timer list"

text \<open>An instance (its fields) together with the host it runs on.\<close>

record ('c, 'cb) world =
  inst :: 'c
  sched :: "'cb scheduler"

definition fresh_scheduler :: "'cb scheduler" where
  "fresh_scheduler = \<lparr>now = 0, last_handle = 0, pending = []\<rparr>"

definition setTimeout :: "'cb \<Rightarrow> nat \<Rightarrow> 'cb scheduler \<Rightarrow> nat \<times> 'cb scheduler" where
  "setTimeout cb delay s =
     (let h = Suc (last_handle s) in
      (h, s\<lparr>last_handle := h,
            pending := pending s @ [\<lparr>tm_handle = h, tm_due = now s + delay, tm_callback = cb\<rparr>]\<rparr>))"

definition clearTimeout :: "nat \<Rightarrow> 'cb scheduler \<Rightarrow> 'cb scheduler" where
  "clearTimeout h s = s\<lparr>pending := filter (\<lambda>t. tm_handle t \<noteq> h) (pending s)\<rparr>"

text \<open>The timer that fires next: the earliest due, the first created among equals.\<close>

fun next_timer :: "'cb timer list \<Rightarrow> 'cb timer option" where
  "next_timer [] = None"
| "next_timer (t # ts) =
     (case next_timer ts of
        None \<Rightarrow> Some t
      | Some u \<Rightarrow> if tm_due u < tm_due t then Some u else Some t)"

text \<open>Firing a timer takes it off the pending list and moves the clock to its due time.\<close>

definition fired :: "'cb timer \<Rightarrow> 'cb scheduler \<Rightarrow> 'cb scheduler" where
  "fired t s = s\<lparr>now := max (now s) (tm_due t),
                  pending := filter (\<lambda>u. tm_handle u \<noteq> tm_handle t) (pending s)\<rparr>"

datatype js_error = TypeError

text \<open>JavaScript truthiness of a timer handle: \<^verbatim>\<open>null\<close>, \<^verbatim>\<open>undefined\<close> and \<open>0\<close> are falsy.\<close>

fun truthy :: "nat option \<Rightarrow> bool" where
  "truthy None = False"
| "truthy (Some h) = (h \<noteq> 0)"

text \<open>\<^verbatim>\<open>clearTimeout(x)\<close> on a variable: \<^verbatim>\<open>null\<close> and \<^verbatim>\<open>undefined\<close> cancel nothing.\<close>

fun clearTimeout_opt :: "nat option \<Rightarrow> 'cb scheduler \<Rightarrow> 'cb scheduler" where
  "clearTimeout_opt None s = s"
| "clearTimeout_opt (Some h) s = clearTimeout h s"

section \<open>TypingEffect: the single-text typewriter\<close>

record te_options =
  typeSpeed :: nat
  deleteSpeed :: nat
  pauseTime :: nat
  loop :: bool
  showCursor :: bool
  cursorChar :: string

definition default_options :: te_options where
  "default_options = \<lparr>typeSpeed = 100, deleteSpeed = 50, pauseTime = 2000, loop = True,
     showCursor = True, cursorChar = ''|''\<rparr>"

text \<open>
  \<open>element\<close> is the sink's \<^verbatim>\<open>textContent\<close>; \<open>None\<close> is a missing element
  (\<^verbatim>\<open>null\<close>). \<open>timeoutId\<close> is \<open>None\<close> for \<^verbatim>\<open>null\<close>.
\<close>

record typing_effect =
  element :: "string option"
  texts :: "string list"
  options :: te_options
  currentTextIndex :: nat
  currentCharIndex :: int
  isDeleting :: bool
  isPaused :: bool
  timeoutId :: "nat option"

type_synonym te_world = "(typing_effect, unit) world"

text \<open>\<^verbatim>\<open>s.substring(0, n)\<close>: the end is clamped to \<open>[0, length s]\<close>.\<close>

definition substring0 :: "string \<Rightarrow> int \<Rightarrow> string" where
  "substring0 s n = take (nat n) s"

text \<open>The constructor's \<^verbatim>\<open>texts\<close> argument: an array, or one text that it wraps.\<close>

datatype texts_arg = TextArray "string list" | TextSingle string

fun texts_of :: "texts_arg \<Rightarrow> string list" where
  "texts_of (TextArray ts) = ts"
| "texts_of (TextSingle t) = [t]"

text \<open>The tail of \<^verbatim>\<open>type()\<close>: write the sink, schedule the next tick.\<close>

definition write_and_schedule :: "string \<Rightarrow> nat \<Rightarrow> te_world \<Rightarrow> js_error + te_world" where
  "write_and_schedule displayText nextDelay w =
     (case element (inst w) of
        None \<Rightarrow> Inl TypeError
      | Some _ \<Rightarrow>
          (let (h, s') = setTimeout () nextDelay (sched w)
           in Inr (w\<lparr>inst := (inst w)\<lparr>element := Some displayText, timeoutId := Some h\<rparr>,
                     sched := s'\<rparr>)))"

definition type_step :: "te_world \<Rightarrow> js_error + te_world" where
  "type_step w =
     (let t = inst w; opts = options t in
      if isPaused t then Inr w
      else if length (texts t) \<le> currentTextIndex t then Inl TypeError
      else
        let currentText = texts t ! currentTextIndex t in
        if \<not> isDeleting t then
          (let displayText = substring0 currentText (currentCharIndex t + 1);
               ci = currentCharIndex t + 1
           in if ci = int (length currentText)
              then write_and_schedule displayText (pauseTime opts)
                     (w\<lparr>inst := t\<lparr>currentCharIndex := ci, isDeleting := True\<rparr>\<rparr>)
              else write_and_schedule displayText (typeSpeed opts)
                     (w\<lparr>inst := t\<lparr>currentCharIndex := ci\<rparr>\<rparr>))
        else
          (let displayText = substring0 currentText (currentCharIndex t - 1);
               ci = currentCharIndex t - 1
           in if ci = 0
              then
                (let idx = (currentTextIndex t + 1) mod length (texts t) in
                 if \<not> loop opts \<and> idx = 0
                 then (case element t of
                         None \<Rightarrow> Inl TypeError
                       | Some _ \<Rightarrow>
                           Inr (w\<lparr>inst := t\<lparr>currentCharIndex := ci, isDeleting := False,
                                  currentTextIndex := idx, element := Some displayText\<rparr>\<rparr>))
                 else write_and_schedule displayText (typeSpeed opts)
                        (w\<lparr>inst := t\<lparr>currentCharIndex := ci, isDeleting := False,
                              currentTextIndex := idx\<rparr>\<rparr>))
              else write_and_schedule displayText (deleteSpeed opts)
                     (w\<lparr>inst := t\<lparr>currentCharIndex := ci\<rparr>\<rparr>)))"

definition start :: "te_world \<Rightarrow> js_error + te_world" where
  "start w = type_step w"

definition stop :: "te_world \<Rightarrow> te_world" where
  "stop w =
     (if truthy (timeoutId (inst w))
      then w\<lparr>inst := (inst w)\<lparr>timeoutId := None\<rparr>,
             sched := clearTimeout_opt (timeoutId (inst w)) (sched w)\<rparr>
      else w)"

definition pause :: "te_world \<Rightarrow> te_world" where
  "pause w = stop (w\<lparr>inst := (inst w)\<lparr>isPaused := True\<rparr>\<rparr>)"

definition resume :: "te_world \<Rightarrow> js_error + te_world" where
  "resume w = start (w\<lparr>inst := (inst w)\<lparr>isPaused := False\<rparr>\<rparr>)"

definition reset :: "te_world \<Rightarrow> js_error + te_world" where
  "reset w =
     (let w1 = stop w;
          t = (inst w1)\<lparr>currentTextIndex := 0, currentCharIndex := 0, isDeleting := False,
                 isPaused := False\<rparr>
      in case element t of
           None \<Rightarrow> Inl TypeError
         | Some _ \<Rightarrow> Inr (w1\<lparr>inst := t\<lparr>element := Some []\<rparr>\<rparr>))"

definition changeTexts :: "texts_arg \<Rightarrow> te_world \<Rightarrow> js_error + te_world" where
  "changeTexts newTexts w =
     (case reset (w\<lparr>inst := (inst w)\<lparr>texts := texts_of newTexts\<rparr>\<rparr>) of
        Inl e \<Rightarrow> Inl e
      | Inr w' \<Rightarrow> start w')"

definition destroy :: "te_world \<Rightarrow> js_error + te_world" where
  "destroy w =
     (let w1 = stop w in
      case element (inst w1) of
        None \<Rightarrow> Inl TypeError
      | Some _ \<Rightarrow> Inr (w1\<lparr>inst := (inst w1)\<lparr>element := Some []\<rparr>\<rparr>))"

definition init :: "te_world \<Rightarrow> js_error + te_world" where
  "init w =
     (if element (inst w) = None \<or> length (texts (inst w)) = 0 then Inr w
      else start (w\<lparr>inst := (inst w)\<lparr>element := Some []\<rparr>\<rparr>))"

definition new_TypingEffect ::
    "string option \<Rightarrow> texts_arg \<Rightarrow> te_options \<Rightarrow> unit scheduler \<Rightarrow> js_error + te_world" where
  "new_TypingEffect el txts opts s =
     init \<lparr>inst = \<lparr>element = el, texts = texts_of txts, options = opts,
                    currentTextIndex = 0, currentCharIndex = 0, isDeleting = False,
                    isPaused = False, timeoutId = None\<rparr>,
           sched = s\<rparr>"

text \<open>
  A pending timer of the instance fires: the host takes it off its list and runs the
  callback, \<^verbatim>\<open>() => this.type()\<close>.
\<close>

definition fire_timer :: "unit timer \<Rightarrow> te_world \<Rightarrow> js_error + te_world" where
  "fire_timer t w = type_step (w\<lparr>sched := fired t (sched w)\<rparr>)"

text \<open>One tick: the next due timer fires; with nothing pending nothing happens.\<close>

definition tick :: "te_world \<Rightarrow> js_error + te_world" where
  "tick w = (case next_timer (pending (sched w)) of None \<Rightarrow> Inr w | Some t \<Rightarrow> fire_timer t w)"

text \<open>Sequencing of steps that may throw.\<close>

definition and_then :: "js_error + 'a \<Rightarrow> ('a \<Rightarrow> js_error + 'b) \<Rightarrow> js_error + 'b" where
  "and_then r f = (case r of Inl e \<Rightarrow> Inl e | Inr x \<Rightarrow> f x)"

fun ticks :: "nat \<Rightarrow> te_world \<Rightarrow> js_error + te_world" where
  "ticks 0 w = Inr w"
| "ticks (Suc n) w = and_then (tick w) (ticks n)"

text \<open>What can happen to an instance: a timer fires, or its owner calls a method.\<close>

datatype te_event = Tick | Pause | Resume | Reset | Destroy | ChangeTexts texts_arg

fun te_step :: "te_event \<Rightarrow> te_world \<Rightarrow> js_error + te_world" where
  "te_step Tick w = tick w"
| "te_step Pause w = Inr (pause w)"
| "te_step Resume w = resume w"
| "te_step Reset w = reset w"
| "te_step Destroy w = destroy w"
| "te_step (ChangeTexts ts) w = changeTexts ts w"

fun te_run :: "te_event list \<Rightarrow> te_world \<Rightarrow> js_error + te_world" where
  "te_run [] w = Inr w"
| "te_run (e # es) w = and_then (te_step e w) (te_run es)"

section \<open>MultiLineTypingEffect: the multi-line typewriter\<close>

record ml_options =
  ml_typeSpeed :: nat
  lineDelay :: nat
  ml_showCursor :: bool
  ml_cursorChar :: string

definition ml_default_options :: ml_options where
  "ml_default_options = \<lparr>ml_typeSpeed = 80, lineDelay = 500, ml_showCursor = True,
     ml_cursorChar = ''|''\<rparr>"

text \<open>
  A child of the container: markup that was there before, or the i-th line element
  that \<^verbatim>\<open>init\<close> created. \<open>container\<close> is the list of children, \<open>None\<close> for a
  missing container; \<open>elements\<close> holds the \<^verbatim>\<open>textContent\<close> of each created element.
\<close>

datatype node = Foreign | LineDiv nat

record multi_line =
  container :: "node list option"
  lines :: "string list"
  ml_opts :: ml_options
  currentLineIndex :: nat
  ml_currentCharIndex :: nat
  ml_timeoutId :: "nat option"
  elements :: "string list"

type_synonym ml_world = "(multi_line, unit) world"

definition typeLine :: "ml_world \<Rightarrow> js_error + ml_world" where
  "typeLine w =
     (let m = inst w; opts = ml_opts m in
      if length (lines m) \<le> currentLineIndex m then Inr w
      else if length (elements m) \<le> currentLineIndex m then Inl TypeError
      else
        let currentLine = lines m ! currentLineIndex m in
        if ml_currentCharIndex m < length currentLine then
          (let displayText = substring0 currentLine (int (ml_currentCharIndex m) + 1);
               shown = (if ml_showCursor opts
                           \<and> int (currentLineIndex m) = int (length (lines m)) - 1
                        then displayText @ ml_cursorChar opts else displayText);
               (h, s') = setTimeout () (ml_typeSpeed opts) (sched w)
           in Inr (w\<lparr>inst := m\<lparr>elements := (elements m)[currentLineIndex m := shown],
                              ml_currentCharIndex := ml_currentCharIndex m + 1,
                              ml_timeoutId := Some h\<rparr>,
                     sched := s'\<rparr>))
        else
          (let (h, s') = setTimeout () (lineDelay opts) (sched w)
           in Inr (w\<lparr>inst := m\<lparr>elements := (elements m)[currentLineIndex m := currentLine],
                              currentLineIndex := currentLineIndex m + 1,
                              ml_currentCharIndex := 0,
                              ml_timeoutId := Some h\<rparr>,
                     sched := s'\<rparr>)))"

definition ml_start :: "ml_world \<Rightarrow> js_error + ml_world" where
  "ml_start w = typeLine w"

definition ml_stop :: "ml_world \<Rightarrow> ml_world" where
  "ml_stop w =
     (if truthy (ml_timeoutId (inst w))
      then w\<lparr>inst := (inst w)\<lparr>ml_timeoutId := None\<rparr>,
             sched := clearTimeout_opt (ml_timeoutId (inst w)) (sched w)\<rparr>
      else w)"

definition ml_init :: "ml_world \<Rightarrow> js_error + ml_world" where
  "ml_init w =
     (let m = inst w in
      if container m = None \<or> length (lines m) = 0 then Inr w
      else ml_start (w\<lparr>inst := m\<lparr>container := Some (map LineDiv [0..<length (lines m)]),
                                 elements := elements m @ replicate (length (lines m)) []\<rparr>\<rparr>))"

definition new_MultiLineTypingEffect ::
    "node list option \<Rightarrow> string list \<Rightarrow> ml_options \<Rightarrow> unit scheduler \<Rightarrow> js_error + ml_world" where
  "new_MultiLineTypingEffect c ls opts s =
     ml_init \<lparr>inst = \<lparr>container = c, lines = ls, ml_opts = opts, currentLineIndex = 0,
                       ml_currentCharIndex = 0, ml_timeoutId = None, elements = []\<rparr>,
              sched = s\<rparr>"

definition ml_reset :: "ml_world \<Rightarrow> ml_world" where
  "ml_reset w =
     (let w1 = ml_stop w in
      w1\<lparr>inst := (inst w1)\<lparr>currentLineIndex := 0, ml_currentCharIndex := 0,
                           elements := map (\<lambda>_. []) (elements (inst w1))\<rparr>\<rparr>)"

definition ml_destroy :: "ml_world \<Rightarrow> js_error + ml_world" where
  "ml_destroy w =
     (let w1 = ml_stop w in
      case container (inst w1) of
        None \<Rightarrow> Inl TypeError
      | Some _ \<Rightarrow> Inr (w1\<lparr>inst := (inst w1)\<lparr>container := Some []\<rparr>\<rparr>))"

definition ml_fire_timer :: "unit timer \<Rightarrow> ml_world \<Rightarrow> js_error + ml_world" where
  "ml_fire_timer t w = typeLine (w\<lparr>sched := fired t (sched w)\<rparr>)"

definition ml_tick :: "ml_world \<Rightarrow> js_error + ml_world" where
  "ml_tick w =
     (case next_timer (pending (sched w)) of None \<Rightarrow> Inr w | Some t \<Rightarrow> ml_fire_timer t w)"

fun ml_ticks :: "nat \<Rightarrow> ml_world \<Rightarrow> js_error + ml_world" where
  "ml_ticks 0 w = Inr w"
| "ml_ticks (Suc n) w = and_then (ml_tick w) (ml_ticks n)"

datatype ml_event = MTick | MReset | MDestroy

fun ml_step :: "ml_event \<Rightarrow> ml_world \<Rightarrow> js_error + ml_world" where
  "ml_step MTick w = ml_tick w"
| "ml_step MReset w = Inr (ml_reset w)"
| "ml_step MDestroy w = ml_destroy w"

fun ml_run :: "ml_event list \<Rightarrow> ml_world \<Rightarrow> js_error + ml_world" where
  "ml_run [] w = Inr w"
| "ml_run (e # es) w = and_then (ml_step e w) (ml_run es)"

section \<open>The timing primitives: debounce and throttle\<close>

text \<open>
  The callbacks of both wrappers only touch the wrapper's own variables and schedule
  nothing, so letting time pass is a terminating loop: while a timer is due at or
  before \<open>t\<close>, fire the next one; at the end the clock reads \<open>t\<close>. \<open>exec\<close> runs
  a callback on the wrapper's variables, at the time given.
\<close>

lemma next_timer_mem: "next_timer ts = Some t \<Longrightarrow> t \<in> set ts"
  by (induction ts arbitrary: t) (auto split: option.splits if_splits)

lemma fired_shorter:
  assumes "next_timer (pending s) = Some t"
  shows "length (pending (fired t s)) < length (pending s)"
proof -
  have "t \<in> set (pending s)" using assms by (rule next_timer_mem)
  then have "length (filter (\<lambda>u. tm_handle u \<noteq> tm_handle t) (pending s)) < length (pending s)"
    by (intro length_filter_less[where x = t]) simp_all
  then show ?thesis by (simp add: fired_def)
qed

function run_due ::
    "('cb \<Rightarrow> nat \<Rightarrow> 'c \<Rightarrow> 'c) \<Rightarrow> nat \<Rightarrow> ('c, 'cb) world \<Rightarrow> ('c, 'cb) world" where
  "run_due exec t w =
     (case next_timer (pending (sched w)) of
        None \<Rightarrow> w
      | Some tm \<Rightarrow>
          if tm_due tm \<le> t
          then run_due exec t
                 \<lparr>inst = exec (tm_callback tm) (now (fired tm (sched w))) (inst w),
                  sched = fired tm (sched w)\<rparr>
          else w)"
  by pat_completeness auto
termination
  by (relation "measure (\<lambda>(exec, t, w). length (pending (sched w)))")
     (auto simp: fired_shorter)

definition advance_to ::
    "('cb \<Rightarrow> nat \<Rightarrow> 'c \<Rightarrow> 'c) \<Rightarrow> nat \<Rightarrow> ('c, 'cb) world \<Rightarrow> ('c, 'cb) world" where
  "advance_to exec t w =
     (let w' = run_due exec t w in w'\<lparr>sched := (sched w')\<lparr>now := max (now (sched w')) t\<rparr>\<rparr>)"

subsection \<open>debounce\<close>

text \<open>
  The wrapped function is opaque; what the model keeps of it is the list of its
  invocations, each with the time and the arguments. A pending timer's callback is the
  closure \<^verbatim>\<open>later\<close> of the call that scheduled it, which holds that call's arguments.
\<close>

datatype 'a db_callback = Later 'a

record 'a debounced =
  db_wait :: nat
  db_immediate :: bool
  db_timeout :: "nat option"
  db_invocations :: "(nat \<times> 'a) list"

type_synonym 'a db_world = "('a debounced, 'a db_callback) world"

definition debounce :: "nat \<Rightarrow> bool \<Rightarrow> 'a db_callback scheduler \<Rightarrow> 'a db_world" where
  "debounce wait immediate s =
     \<lparr>inst = \<lparr>db_wait = wait, db_immediate = immediate, db_timeout = None,
               db_invocations = []\<rparr>,
      sched = s\<rparr>"

definition later :: "'a \<Rightarrow> nat \<Rightarrow> 'a debounced \<Rightarrow> 'a debounced" where
  "later args tnow d =
     (let d1 = d\<lparr>db_timeout := None\<rparr> in
      if \<not> db_immediate d1 then d1\<lparr>db_invocations := db_invocations d1 @ [(tnow, args)]\<rparr>
      else d1)"

fun db_exec :: "'a db_callback \<Rightarrow> nat \<Rightarrow> 'a debounced \<Rightarrow> 'a debounced" where
  "db_exec (Later args) tnow d = later args tnow d"

definition executedFunction :: "'a \<Rightarrow> 'a db_world \<Rightarrow> 'a db_world" where
  "executedFunction args w =
     (let d = inst w;
          callNow = (db_immediate d \<and> \<not> truthy (db_timeout d));
          s1 = clearTimeout_opt (db_timeout d) (sched w);
          (h, s2) = setTimeout (Later args) (db_wait d) s1;
          d1 = d\<lparr>db_timeout := Some h\<rparr>
      in \<lparr>inst = (if callNow then d1\<lparr>db_invocations := db_invocations d1 @ [(now s2, args)]\<rparr>
                  else d1),
          sched = s2\<rparr>)"

text \<open>A call of the wrapper at time \<open>t\<close>: the timers due by then have fired first.\<close>

definition db_call_at :: "nat \<times> 'a \<Rightarrow> 'a db_world \<Rightarrow> 'a db_world" where
  "db_call_at c w = executedFunction (snd c) (advance_to db_exec (fst c) w)"

fun db_calls :: "(nat \<times> 'a) list \<Rightarrow> 'a db_world \<Rightarrow> 'a db_world" where
  "db_calls [] w = w"
| "db_calls (c # cs) w = db_calls cs (db_call_at c w)"

subsection \<open>throttle\<close>

datatype th_callback = ClearThrottle

record 'a throttled =
  th_limit :: nat
  inThrottle :: bool
  th_invocations :: "(nat \<times> 'a) list"

type_synonym 'a th_world = "('a throttled, th_callback) world"

text \<open>\<^verbatim>\<open>let inThrottle;\<close> starts as \<^verbatim>\<open>undefined\<close>, which is falsy.\<close>

definition throttle :: "nat \<Rightarrow> th_callback scheduler \<Rightarrow> 'a th_world" where
  "throttle limit s =
     \<lparr>inst = \<lparr>th_limit = limit, inThrottle = False, th_invocations = []\<rparr>, sched = s\<rparr>"

fun th_exec :: "th_callback \<Rightarrow> nat \<Rightarrow> 'a throttled \<Rightarrow> 'a throttled" where
  "th_exec ClearThrottle tnow d = d\<lparr>inThrottle := False\<rparr>"

definition throttled_call :: "'a \<Rightarrow> 'a th_world \<Rightarrow> 'a th_world" where
  "throttled_call args w =
     (let d = inst w in
      if \<not> inThrottle d then
        (let d1 = d\<lparr>th_invocations := th_invocations d @ [(now (sched w), args)]\<rparr>;
             d2 = d1\<lparr>inThrottle := True\<rparr>;
             (h, s') = setTimeout ClearThrottle (th_limit d) (sched w)
         in \<lparr>inst = d2, sched = s'\<rparr>)
      else w)"

text \<open>
  What can happen to a throttle wrapper, in the order in which it happens: time passes
  (the clock reaches \<open>t\<close>); the host runs the callback of the next pending timer,
  which it does no earlier than the timer is due, and possibly later; the wrapper is
  called, at the present time. A call runs the wrapper's body and nothing else: whether
  the cooldown callback has run before it is a matter of the order of the events.
\<close>

datatype 'a th_event = ThElapse nat | ThTimer | ThCall 'a

fun th_step :: "'a th_event \<Rightarrow> 'a th_world \<Rightarrow> 'a th_world" where
  "th_step (ThElapse t) w = w\<lparr>sched := (sched w)\<lparr>now := max (now (sched w)) t\<rparr>\<rparr>"
| "th_step ThTimer w =
     (case next_timer (pending (sched w)) of
        None \<Rightarrow> w
      | Some tm \<Rightarrow>
          if tm_due tm \<le> now (sched w)
          then \<lparr>inst = th_exec (tm_callback tm) (now (sched w)) (inst w),
                sched = fired tm (sched w)\<rparr>
          else w)"
| "th_step (ThCall args) w = throttled_call args w"

fun th_run :: "'a th_event list \<Rightarrow> 'a th_world \<Rightarrow> 'a th_world" where
  "th_run [] w = w"
| "th_run (e # es) w = th_run es (th_step e w)"

section \<open>Configurations of the single-text typewriter\<close>

text \<open>
  The vocabulary of the proofs about whole runs: the instance is at text \<open>idx\<close> with
  \<open>ci\<close> characters shown, typing or deleting, and running; the machine has stopped;
  and the number of ticks that remain until it stops when looping is disabled.
\<close>

definition te_at :: "te_world \<Rightarrow> string list \<Rightarrow> te_options \<Rightarrow> nat \<Rightarrow> nat \<Rightarrow> bool \<Rightarrow> bool" where
  "te_at w ts opts idx ci del \<longleftrightarrow>
     texts (inst w) = ts \<and> options (inst w) = opts \<and> currentTextIndex (inst w) = idx
     \<and> currentCharIndex (inst w) = int ci \<and> isDeleting (inst w) = del
     \<and> \<not> isPaused (inst w) \<and> element (inst w) \<noteq> None"

definition te_stopped :: "te_world \<Rightarrow> bool" where
  "te_stopped w \<longleftrightarrow>
     element (inst w) = Some [] \<and> currentTextIndex (inst w) = 0
     \<and> currentCharIndex (inst w) = 0 \<and> \<not> isDeleting (inst w) \<and> pending (sched w) = []"

definition te_remaining :: "string list \<Rightarrow> nat \<Rightarrow> nat \<Rightarrow> bool \<Rightarrow> nat" where
  "te_remaining ts idx ci del =
     (if del then ci else 2 * length (ts ! idx) - ci)
     + 2 * sum_list (map length (drop (Suc idx) ts))"

section \<open>Configurations of the multi-line typewriter\<close>

text \<open>
  The instance is at line \<open>idx\<close> with \<open>ci\<close> characters typed, one sink per line,
  the lines before \<open>idx\<close> complete in their sinks; and the number of calls of
  \<^verbatim>\<open>typeLine()\<close> that still schedule a timer.
\<close>

definition ml_at :: "ml_world \<Rightarrow> string list \<Rightarrow> ml_options \<Rightarrow> nat \<Rightarrow> nat \<Rightarrow> bool" where
  "ml_at w ls opts idx ci \<longleftrightarrow>
     lines (inst w) = ls \<and> ml_opts (inst w) = opts \<and> currentLineIndex (inst w) = idx
     \<and> ml_currentCharIndex (inst w) = ci \<and> length (elements (inst w)) = length ls
     \<and> take idx (elements (inst w)) = take idx ls"

definition ml_remaining :: "string list \<Rightarrow> nat \<Rightarrow> nat \<Rightarrow> nat" where
  "ml_remaining ls idx ci =
     (if idx < length ls
      then Suc (length (ls ! idx) - ci) + sum_list (map (\<lambda>l. Suc (length l)) (drop (Suc idx) ls))
      else 0)"

section \<open>Invariants of the timing primitives\<close>

text \<open>
  The vocabulary of the proofs about throttle: the recorded invocations are at least
  \<open>limit\<close> apart, and the state a throttle wrapper is in between calls (in cooldown
  with its one timer pending, due \<open>limit\<close> after the last invocation; or quiet, with
  no timer and the last invocation at least \<open>limit\<close> ago).
\<close>

definition th_spaced :: "nat \<Rightarrow> (nat \<times> 'a) list \<Rightarrow> bool" where
  "th_spaced limit log \<longleftrightarrow> (\<forall>j<length log. \<forall>i<j. fst (log ! i) + limit \<le> fst (log ! j))"

definition th_inv :: "nat \<Rightarrow> 'a th_world \<Rightarrow> bool" where
  "th_inv limit w \<longleftrightarrow>
     th_limit (inst w) = limit
     \<and> (if inThrottle (inst w)
        then th_invocations (inst w) \<noteq> []
             \<and> (\<exists>tm. pending (sched w) = [tm]
                   \<and> tm_due tm = fst (last (th_invocations (inst w))) + limit)
        else pending (sched w) = []
             \<and> (th_invocations (inst w) = []
                 \<or> fst (last (th_invocations (inst w))) + limit \<le> now (sched w)))
     \<and> th_spaced limit (th_invocations (inst w))
     \<and> (\<forall>x\<in>set (th_invocations (inst w)). fst x \<le> now (sched w))"

text \<open>
  For debounce: a burst is a sequence of call times in order, each less than \<open>wait\<close>
  after the one before. Between calls a debounce wrapper has no timer pending or the one
  whose handle it holds; in a burst (non-immediate mode) nothing has been invoked yet
  and the one timer pending is due \<open>wait\<close> after the last call, with that call's
  arguments.
\<close>

fun burst :: "nat \<Rightarrow> nat list \<Rightarrow> bool" where
  "burst wait [] = True"
| "burst wait [t] = True"
| "burst wait (t # u # ts) = (t \<le> u \<and> u < t + wait \<and> burst wait (u # ts))"

definition db_inv :: "'a db_world \<Rightarrow> bool" where
  "db_inv w \<longleftrightarrow>
     (pending (sched w) = []
      \<or> (\<exists>tm. pending (sched w) = [tm] \<and> db_timeout (inst w) = Some (tm_handle tm)))"

definition db_armed :: "nat \<Rightarrow> nat \<Rightarrow> 'a \<Rightarrow> 'a db_world \<Rightarrow> bool" where
  "db_armed wait t a w \<longleftrightarrow>
     db_wait (inst w) = wait \<and> \<not> db_immediate (inst w) \<and> db_invocations (inst w) = []
     \<and> now (sched w) = t
     \<and> (\<exists>h. db_timeout (inst w) = Some h
            \<and> pending (sched w) = [\<lparr>tm_handle = h, tm_due = t + wait, tm_callback = Later a\<rparr>])"

section \<open>One timer at a time\<close>

text \<open>
  A run of the single-text typewriter in which \<^verbatim>\<open>resume()\<close> is only called on a
  paused instance; and the state of a typewriter that holds the handle of its one
  pending timer, or has none pending (a paused single-text typewriter has none).
\<close>

fun resume_when_paused :: "te_event list \<Rightarrow> te_world \<Rightarrow> bool" where
  "resume_when_paused [] w = True"
| "resume_when_paused (e # es) w =
     ((if e = Resume then isPaused (inst w) else True)
      \<and> (case te_step e w of Inl _ \<Rightarrow> True | Inr w' \<Rightarrow> resume_when_paused es w'))"

definition te_inv :: "te_world \<Rightarrow> bool" where
  "te_inv w \<longleftrightarrow>
     (pending (sched w) = []
      \<or> (\<not> isPaused (inst w)
         \<and> (\<exists>tm. pending (sched w) = [tm] \<and> timeoutId (inst w) = Some (tm_handle tm)
                  \<and> tm_handle tm \<noteq> 0)))"

definition ml_inv :: "ml_world \<Rightarrow> bool" where
  "ml_inv w \<longleftrightarrow>
     (pending (sched w) = []
      \<or> (\<exists>tm. pending (sched w) = [tm] \<and> ml_timeoutId (inst w) = Some (tm_handle tm)
                  \<and> tm_handle tm \<noteq> 0))"

section \<open>Example instances\<close>

text \<open>
  A typewriter for the one text \<open>ab\<close> with the default options, right after its
  construction on a fresh host: the first character is shown and the next tick is
  scheduled.
\<close>

definition w_first_char :: te_world where
  "w_first_char =
     \<lparr>inst = \<lparr>element = Some ''a'', texts = [''ab''], options = default_options,
               currentTextIndex = 0, currentCharIndex = 1, isDeleting = False,
               isPaused = False, timeoutId = Some 1\<rparr>,
      sched = \<lparr>now = 0, last_handle = 1,
               pending = [\<lparr>tm_handle = 1, tm_due = 100, tm_callback = ()\<rparr>]\<rparr>\<rparr>"

text \<open>The same instance after \<^verbatim>\<open>resume()\<close> and then \<^verbatim>\<open>pause()\<close>.\<close>

definition w_paused_stray :: te_world where
  "w_paused_stray =
     \<lparr>inst = \<lparr>element = Some ''ab'', texts = [''ab''], options = default_options,
               currentTextIndex = 0, currentCharIndex = 2, isDeleting = True,
               isPaused = True, timeoutId = None\<rparr>,
      sched = \<lparr>now = 0, last_handle = 2,
               pending = [\<lparr>tm_handle = 1, tm_due = 100, tm_callback = ()\<rparr>]\<rparr>\<rparr>"

text \<open>After \<^verbatim>\<open>pause()\<close> and then \<^verbatim>\<open>resume()\<close>.\<close>

definition w_pause_resume :: te_world where
  "w_pause_resume =
     \<lparr>inst = \<lparr>element = Some ''ab'', texts = [''ab''], options = default_options,
               currentTextIndex = 0, currentCharIndex = 2, isDeleting = True,
               isPaused = False, timeoutId = Some 2\<rparr>,
      sched = \<lparr>now = 0, last_handle = 2,
               pending = [\<lparr>tm_handle = 2, tm_due = 2000, tm_callback = ()\<rparr>]\<rparr>\<rparr>"

text \<open>After \<^verbatim>\<open>resume()\<close> alone, on the running machine.\<close>

definition w_resume_active :: te_world where
  "w_resume_active =
     \<lparr>inst = \<lparr>element = Some ''ab'', texts = [''ab''], options = default_options,
               currentTextIndex = 0, currentCharIndex = 2, isDeleting = True,
               isPaused = False, timeoutId = Some 2\<rparr>,
      sched = \<lparr>now = 0, last_handle = 2,
               pending = [\<lparr>tm_handle = 1, tm_due = 100, tm_callback = ()\<rparr>,
                          \<lparr>tm_handle = 2, tm_due = 2000, tm_callback = ()\<rparr>]\<rparr>\<rparr>"

text \<open>
  After \<^verbatim>\<open>pause(); pause(); resume(); resume()\<close>, which is what the page's two
  \<^verbatim>\<open>visibilitychange\<close> listeners do when the tab is hidden and shown again.
\<close>

definition w_hidden_shown :: te_world where
  "w_hidden_shown =
     \<lparr>inst = \<lparr>element = Some ''a'', texts = [''ab''], options = default_options,
               currentTextIndex = 0, currentCharIndex = 1, isDeleting = True,
               isPaused = False, timeoutId = Some 3\<rparr>,
      sched = \<lparr>now = 0, last_handle = 3,
               pending = [\<lparr>tm_handle = 2, tm_due = 2000, tm_callback = ()\<rparr>,
                          \<lparr>tm_handle = 3, tm_due = 50, tm_callback = ()\<rparr>]\<rparr>\<rparr>"

text \<open>
  A multi-line typewriter for the one line \<open>c\<close>, in the middle of its construction:
  the line element exists and \<^verbatim>\<open>start()\<close> is about to run.
\<close>

definition m_created :: ml_world where
  "m_created =
     \<lparr>inst = \<lparr>container = Some [LineDiv 0], lines = [''c''], ml_opts = ml_default_options,
               currentLineIndex = 0, ml_currentCharIndex = 0, ml_timeoutId = None,
               elements = [[]]\<rparr>,
      sched = fresh_scheduler\<rparr>"

text \<open>
  A multi-line typewriter for the one line \<open>c\<close> with the default options (cursor
  \<open>|\<close> shown): right after its construction on a fresh host, after the first tick,
  and after the second.
\<close>

definition m_first_char :: ml_world where
  "m_first_char =
     \<lparr>inst = \<lparr>container = Some [LineDiv 0], lines = [''c''], ml_opts = ml_default_options,
               currentLineIndex = 0, ml_currentCharIndex = 1, ml_timeoutId = Some 1,
               elements = [''c|'']\<rparr>,
      sched = \<lparr>now = 0, last_handle = 1,
               pending = [\<lparr>tm_handle = 1, tm_due = 80, tm_callback = ()\<rparr>]\<rparr>\<rparr>"

definition m_completed :: ml_world where
  "m_completed =
     \<lparr>inst = \<lparr>container = Some [LineDiv 0], lines = [''c''], ml_opts = ml_default_options,
               currentLineIndex = 1, ml_currentCharIndex = 0, ml_timeoutId = Some 2,
               elements = [''c'']\<rparr>,
      sched = \<lparr>now = 80, last_handle = 2,
               pending = [\<lparr>tm_handle = 2, tm_due = 580, tm_callback = ()\<rparr>]\<rparr>\<rparr>"

definition m_done :: ml_world where
  "m_done =
     \<lparr>inst = \<lparr>container = Some [LineDiv 0], lines = [''c''], ml_opts = ml_default_options,
               currentLineIndex = 1, ml_currentCharIndex = 0, ml_timeoutId = Some 2,
               elements = [''c'']\<rparr>,
      sched = \<lparr>now = 580, last_handle = 2, pending = []\<rparr>\<rparr>"

text \<open>
  The typewriter for \<open>ab\<close> with looping disabled: before its last deleting tick,
  and after it.
\<close>

definition w_noloop_last_delete :: te_world where
  "w_noloop_last_delete =
     \<lparr>inst = \<lparr>element = Some ''a'', texts = [''ab''],
               options = default_options\<lparr>loop := False\<rparr>,
               currentTextIndex = 0, currentCharIndex = 1, isDeleting = True,
               isPaused = False, timeoutId = Some 3\<rparr>,
      sched = \<lparr>now = 2100, last_handle = 3,
               pending = [\<lparr>tm_handle = 3, tm_due = 2150, tm_callback = ()\<rparr>]\<rparr>\<rparr>"

definition w_noloop_stopped :: te_world where
  "w_noloop_stopped =
     \<lparr>inst = \<lparr>element = Some [], texts = [''ab''],
               options = default_options\<lparr>loop := False\<rparr>,
               currentTextIndex = 0, currentCharIndex = 0, isDeleting = False,
               isPaused = False, timeoutId = Some 3\<rparr>,
      sched = \<lparr>now = 2150, last_handle = 3, pending = []\<rparr>\<rparr>"

section \<open>Properties of the single-text typewriter\<close>

lemma and_then_Inr [simp]: "and_then (Inr x) f = f x"
  by (simp add: and_then_def)

lemma and_then_Inl [simp]: "and_then (Inl e) f = Inl e"
  by (simp add: and_then_def)

lemmas te_defs = new_TypingEffect_def init_def start_def type_step_def write_and_schedule_def
  setTimeout_def clearTimeout_def fresh_scheduler_def default_options_def substring0_def
  resume_def pause_def stop_def fired_def fire_timer_def tick_def Let_def

lemma ticks_idle: "pending (sched w) = [] \<Longrightarrow> ticks n w = Inr w"
  by (induction n) (simp_all add: tick_def)

lemma w_first_char_constructed:
  "new_TypingEffect (Some ''old'') (TextArray [''ab'']) default_options fresh_scheduler
     = Inr w_first_char"
  by (simp add: te_defs w_first_char_def)

lemma w_paused_stray_reached: "te_run [Resume, Pause] w_first_char = Inr w_paused_stray"
  by (simp add: te_defs w_first_char_def w_paused_stray_def)

text \<open>
  C10. A timer that fires while the machine is paused runs \<^verbatim>\<open>type()\<close>, which
  returns at once: the instance (text index, character count, direction flag, sink
  content, and every other field) is unchanged, and the host's pending list only loses
  the timer that fired, so no new timer is scheduled.
\<close>

theorem paused_tick_is_noop:
  assumes "isPaused (inst w)"
  shows "fire_timer t w = Inr (w\<lparr>sched := fired t (sched w)\<rparr>)
       \<and> (\<exists>w'. fire_timer t w = Inr w'
           \<and> inst w' = inst w
           \<and> pending (sched w') = filter (\<lambda>u. tm_handle u \<noteq> tm_handle t) (pending (sched w))
           \<and> last_handle (sched w') = last_handle (sched w))"
  using assms by (simp add: fire_timer_def type_step_def fired_def)

text \<open>
  The paused instance \<open>w_paused_stray\<close> still has timer 1 pending (\<^verbatim>\<open>pause()\<close>
  cancelled timer 2 only); when it fires, nothing but the host's list changes.
\<close>

theorem paused_tick_is_noop_witness:
  "isPaused (inst w_paused_stray)
   \<and> fire_timer \<lparr>tm_handle = 1, tm_due = 100, tm_callback = ()\<rparr> w_paused_stray
       = Inr (w_paused_stray\<lparr>sched := \<lparr>now = 100, last_handle = 2, pending = []\<rparr>\<rparr>)"
  using paused_tick_is_noop [of w_paused_stray "\<lparr>tm_handle = 1, tm_due = 100, tm_callback = ()\<rparr>"]
  by (simp add: w_paused_stray_def fired_def)

text \<open>
  C1, as the spec states it, fails: \<^verbatim>\<open>resume()\<close> calls \<^verbatim>\<open>start()\<close>, which
  runs \<^verbatim>\<open>type()\<close> at once. Paused while showing \<open>a\<close>, the instance shows
  \<open>ab\<close> as soon as \<^verbatim>\<open>resume()\<close> returns, before any timer has fired.
\<close>

theorem resume_shows_next_text_counterexample:
  "new_TypingEffect (Some ''old'') (TextArray [''ab'']) default_options fresh_scheduler
     = Inr w_first_char
   \<and> element (inst (pause w_first_char)) = Some ''a''
   \<and> resume (pause w_first_char) = Inr w_pause_resume
   \<and> element (inst w_pause_resume) = Some ''ab''
   \<and> pending (sched w_pause_resume) = [\<lparr>tm_handle = 2, tm_due = 2000, tm_callback = ()\<rparr>]"
  by (simp add: te_defs w_first_char_def w_pause_resume_def)

text \<open>
  C1, amended. \<^verbatim>\<open>pause()\<close> leaves the text index, the character count, the
  direction flag and the sink's text as they are, sets the paused flag and cancels the
  timer whose handle the instance holds. \<^verbatim>\<open>resume()\<close> after it runs one step of
  \<^verbatim>\<open>type()\<close> at once, from the position kept: the character count moves by one
  (up when typing, down when deleting) and the sink shows the prefix of that length.
\<close>

theorem pause_keeps_position_resume_steps_at_once:
  "currentTextIndex (inst (pause w)) = currentTextIndex (inst w)
   \<and> currentCharIndex (inst (pause w)) = currentCharIndex (inst w)
   \<and> isDeleting (inst (pause w)) = isDeleting (inst w)
   \<and> element (inst (pause w)) = element (inst w)
   \<and> isPaused (inst (pause w))
   \<and> (truthy (timeoutId (inst w)) \<longrightarrow>
        pending (sched (pause w))
          = filter (\<lambda>t. Some (tm_handle t) \<noteq> timeoutId (inst w)) (pending (sched w)))
   \<and> (currentTextIndex (inst w) < length (texts (inst w)) \<and> element (inst w) \<noteq> None \<longrightarrow>
        (\<exists>w'. resume (pause w) = Inr w'
           \<and> currentCharIndex (inst w')
               = (if isDeleting (inst w) then currentCharIndex (inst w) - 1
                  else currentCharIndex (inst w) + 1)
           \<and> element (inst w')
               = Some (substring0 (texts (inst w) ! currentTextIndex (inst w))
                         (currentCharIndex (inst w'))))
        )"
proof -
  have frame: "currentTextIndex (inst (pause w)) = currentTextIndex (inst w)
      \<and> currentCharIndex (inst (pause w)) = currentCharIndex (inst w)
      \<and> isDeleting (inst (pause w)) = isDeleting (inst w)
      \<and> element (inst (pause w)) = element (inst w)
      \<and> isPaused (inst (pause w))"
    by (simp add: pause_def stop_def)
  have cancel: "truthy (timeoutId (inst w)) \<longrightarrow>
        pending (sched (pause w))
          = filter (\<lambda>t. Some (tm_handle t) \<noteq> timeoutId (inst w)) (pending (sched w))"
    by (cases "timeoutId (inst w)") (simp_all add: pause_def stop_def clearTimeout_def)
  have step: "\<exists>w'. resume (pause w) = Inr w'
           \<and> currentCharIndex (inst w')
               = (if isDeleting (inst w) then currentCharIndex (inst w) - 1
                  else currentCharIndex (inst w) + 1)
           \<and> element (inst w')
               = Some (substring0 (texts (inst w) ! currentTextIndex (inst w))
                         (currentCharIndex (inst w')))"
    if "currentTextIndex (inst w) < length (texts (inst w))" "element (inst w) \<noteq> None"
    using that
    by (auto simp: resume_def pause_def stop_def start_def type_step_def
        write_and_schedule_def setTimeout_def Let_def)
  from frame cancel step show ?thesis by blast
qed

theorem pause_keeps_position_resume_steps_at_once_witness:
  "currentCharIndex (inst (pause w_first_char)) = 1
   \<and> element (inst (pause w_first_char)) = Some ''a''
   \<and> truthy (timeoutId (inst w_first_char))
   \<and> pending (sched (pause w_first_char)) = []
   \<and> currentTextIndex (inst w_first_char) < length (texts (inst w_first_char))
   \<and> element (inst w_first_char) \<noteq> None
   \<and> (\<exists>w'. resume (pause w_first_char) = Inr w'
         \<and> currentCharIndex (inst w') = 2 \<and> element (inst w') = Some ''ab'')"
  using pause_keeps_position_resume_steps_at_once [of w_first_char]
  by (simp add: te_defs w_first_char_def)

text \<open>
  C2. \<^verbatim>\<open>pause()\<close> is idempotent. \<^verbatim>\<open>resume()\<close> is not: on the running instance
  \<open>w_first_char\<close> (one timer pending) it types the next character and schedules a
  second timer beside the first. With the page's two \<^verbatim>\<open>visibilitychange\<close>
  listeners, hiding and showing the tab calls \<^verbatim>\<open>pause(); pause(); resume(); resume()\<close>:
  the second \<^verbatim>\<open>resume()\<close> finds the machine running, skips the hold after the
  full text and leaves two timers pending.
\<close>

theorem resume_on_running_machine_steps_again:
  "(\<forall>w. pause (pause w) = pause w)
   \<and> \<not> isPaused (inst w_first_char)
   \<and> resume w_first_char = Inr w_resume_active
   \<and> w_resume_active \<noteq> w_first_char
   \<and> length (pending (sched w_first_char)) = 1
   \<and> length (pending (sched w_resume_active)) = 2
   \<and> te_run [Pause, Pause, Resume, Resume] w_first_char = Inr w_hidden_shown
   \<and> length (pending (sched w_hidden_shown)) = 2"
proof -
  have "pause (pause w) = pause w" for w
    by (cases "timeoutId (inst w)") (simp_all add: pause_def stop_def)
  moreover have "resume w_first_char = Inr w_resume_active"
    by (simp add: te_defs w_first_char_def w_resume_active_def)
  moreover have "te_run [Pause, Pause, Resume, Resume] w_first_char = Inr w_hidden_shown"
    by (simp add: te_defs w_first_char_def w_hidden_shown_def)
  ultimately show ?thesis
    by (simp add: w_first_char_def w_resume_active_def w_hidden_shown_def)
qed

subsection \<open>Running to the end with looping disabled\<close>

text \<open>One call of \<^verbatim>\<open>type()\<close> in each of its four situations.\<close>

lemma type_step_typing:
  assumes "te_at w ts opts idx ci False" "idx < length ts" "ci < length (ts ! idx)"
  shows "\<exists>w' t. type_step w = Inr w'
           \<and> te_at w' ts opts idx (Suc ci) (Suc ci = length (ts ! idx))
           \<and> element (inst w') = Some (take (Suc ci) (ts ! idx))
           \<and> pending (sched w') = pending (sched w) @ [t]"
  using assms
  by (auto simp: te_at_def type_step_def write_and_schedule_def setTimeout_def substring0_def
      Let_def nat_add_distrib)

lemma type_step_deleting:
  assumes "te_at w ts opts idx ci True" "idx < length ts" "1 < ci"
  shows "\<exists>w' t. type_step w = Inr w'
           \<and> te_at w' ts opts idx (ci - 1) True
           \<and> pending (sched w') = pending (sched w) @ [t]"
  using assms
  by (auto simp: te_at_def type_step_def write_and_schedule_def setTimeout_def substring0_def
      Let_def)

lemma type_step_next_text:
  assumes "te_at w ts opts idx 1 True" "Suc idx < length ts"
  shows "\<exists>w' t. type_step w = Inr w'
           \<and> te_at w' ts opts (Suc idx) 0 False
           \<and> pending (sched w') = pending (sched w) @ [t]"
  using assms
  by (auto simp: te_at_def type_step_def write_and_schedule_def setTimeout_def substring0_def
      Let_def)

lemma type_step_stop:
  assumes "te_at w ts opts idx 1 True" "Suc idx = length ts" "\<not> loop opts"
  shows "\<exists>w'. type_step w = Inr w'
           \<and> element (inst w') = Some [] \<and> currentTextIndex (inst w') = 0
           \<and> currentCharIndex (inst w') = 0 \<and> \<not> isDeleting (inst w')
           \<and> sched w' = sched w"
  using assms
  by (auto simp: te_at_def type_step_def substring0_def Let_def)

lemma tick_single:
  assumes "pending (sched w) = [t]"
  shows "tick w = type_step (w\<lparr>sched := (sched w)\<lparr>now := max (now (sched w)) (tm_due t), pending := []\<rparr>\<rparr>)"
  using assms by (simp add: tick_def fire_timer_def fired_def)

lemma te_at_sched [simp]: "te_at (w\<lparr>sched := s\<rparr>) ts opts idx ci del = te_at w ts opts idx ci del"
  by (simp add: te_at_def)

lemma run_to_stop:
  assumes "\<forall>x\<in>set ts. x \<noteq> []" "\<not> loop opts"
  shows "te_at w ts opts idx ci del \<Longrightarrow> pending (sched w) = [t] \<Longrightarrow> idx < length ts
     \<Longrightarrow> (if del then 1 \<le> ci \<and> ci \<le> length (ts ! idx) else ci < length (ts ! idx))
     \<Longrightarrow> te_remaining ts idx ci del = n
     \<Longrightarrow> \<exists>w'. ticks n w = Inr w' \<and> te_stopped w'
           \<and> (\<forall>k<n. \<exists>w''. ticks k w = Inr w'' \<and> length (pending (sched w'')) = 1)"
proof (induction n arbitrary: w idx ci del t)
  case 0
  then show ?case by (auto simp: te_remaining_def split: if_splits)
next
  case (Suc n)
  let ?w0 = "w\<lparr>sched := (sched w)\<lparr>now := max (now (sched w)) (tm_due t), pending := []\<rparr>\<rparr>"
  have tick: "tick w = type_step ?w0" using Suc.prems(2) by (rule tick_single)
  have at0: "te_at ?w0 ts opts idx ci del" using Suc.prems(1) by simp
  have p0: "pending (sched ?w0) = []" by simp
  have len_pos: "0 < length (ts ! j)" if "j < length ts" for j
    using assms(1) that by (metis length_greater_0_conv nth_mem)
  have drop_eq: "sum_list (map length (drop j ts)) = length (ts ! j) + sum_list (map length (drop (Suc j) ts))"
    if "j < length ts" for j
    using that by (simp add: Cons_nth_drop_Suc[symmetric])
  have zero_case: "\<exists>w''. ticks 0 w = Inr w'' \<and> length (pending (sched w'')) = 1"
    using Suc.prems(2) by simp
  have continue: ?case
    if st: "type_step ?w0 = Inr w1" and at1: "te_at w1 ts opts idx1 ci1 del1"
      and p1: "pending (sched w1) = [t1]" and i1: "idx1 < length ts"
      and v1: "if del1 then 1 \<le> ci1 \<and> ci1 \<le> length (ts ! idx1) else ci1 < length (ts ! idx1)"
      and r1: "te_remaining ts idx1 ci1 del1 = n"
    for w1 idx1 ci1 del1 t1
  proof -
    from Suc.IH[OF at1 p1 i1 v1 r1] obtain w' where
      w': "ticks n w1 = Inr w'" "te_stopped w'"
      "\<forall>k<n. \<exists>w''. ticks k w1 = Inr w'' \<and> length (pending (sched w'')) = 1"
      by blast
    have "ticks (Suc n) w = Inr w'" using tick st w'(1) by simp
    moreover have "\<exists>w''. ticks k w = Inr w'' \<and> length (pending (sched w'')) = 1" if "k < Suc n" for k
    proof (cases k)
      case 0
      then show ?thesis using zero_case by simp
    next
      case (Suc k')
      then have "k' < n" using that by simp
      with w'(3) obtain w'' where "ticks k' w1 = Inr w''" "length (pending (sched w'')) = 1" by blast
      then show ?thesis using Suc tick st by simp
    qed
    ultimately show ?thesis using w'(2) by blast
  qed
  show ?case
  proof (cases del)
    case False
    with Suc.prems have ci: "ci < length (ts ! idx)" by simp
    have atF: "te_at ?w0 ts opts idx ci False" using at0 False by simp
    from type_step_typing[OF atF Suc.prems(3) ci] p0
    obtain w1 t1 where w1: "type_step ?w0 = Inr w1"
      "te_at w1 ts opts idx (Suc ci) (Suc ci = length (ts ! idx))"
      "pending (sched w1) = [t1]"
      by auto
    have r: "te_remaining ts idx (Suc ci) (Suc ci = length (ts ! idx)) = n"
      using Suc.prems(5) ci False by (auto simp: te_remaining_def)
    show ?thesis
      by (rule continue[OF w1(1) w1(2) w1(3) Suc.prems(3) _ r]) (use ci in auto)
  next
    case True
    with Suc.prems have ci: "1 \<le> ci" "ci \<le> length (ts ! idx)" by simp_all
    have atT: "te_at ?w0 ts opts idx ci True" using at0 True by simp
    show ?thesis
    proof (cases "1 < ci")
      case gt: True
      from type_step_deleting[OF atT Suc.prems(3) gt] p0
      obtain w1 t1 where w1: "type_step ?w0 = Inr w1" "te_at w1 ts opts idx (ci - 1) True"
        "pending (sched w1) = [t1]"
        by auto
      have r: "te_remaining ts idx (ci - 1) True = n"
        using Suc.prems(5) gt True by (auto simp: te_remaining_def)
      show ?thesis
        by (rule continue[OF w1(1) w1(2) w1(3) Suc.prems(3) _ r]) (use gt ci in auto)
    next
      case False
      with ci have ci1: "ci = 1" by simp
      show ?thesis
      proof (cases "Suc idx < length ts")
        case more: True
        from type_step_next_text[OF atT[unfolded ci1] more] p0
        obtain w1 t1 where w1: "type_step ?w0 = Inr w1" "te_at w1 ts opts (Suc idx) 0 False"
          "pending (sched w1) = [t1]"
          by auto
        have r: "te_remaining ts (Suc idx) 0 False = n"
          using Suc.prems(5) True ci1 drop_eq[OF more] by (auto simp: te_remaining_def)
        show ?thesis
          by (rule continue[OF w1(1) w1(2) w1(3) more _ r]) (use len_pos[OF more] in auto)
      next
        case last: False
        with Suc.prems(3) have l: "Suc idx = length ts" by simp
        from type_step_stop[OF atT[unfolded ci1] l assms(2)] p0
        obtain w1 where w1: "type_step ?w0 = Inr w1" "te_stopped w1"
          by (auto simp: te_stopped_def)
        have n0: "n = 0" using Suc.prems(5) True ci1 l by (simp add: te_remaining_def)
        have "ticks (Suc n) w = Inr w1" using tick w1(1) n0 by simp
        moreover have "\<forall>k<Suc n. \<exists>w''. ticks k w = Inr w'' \<and> length (pending (sched w'')) = 1"
          using n0 zero_case by simp
        ultimately show ?thesis using w1(2) by blast
      qed
    qed
  qed
qed

lemma w_noloop_last_delete_reached:
  "and_then (new_TypingEffect (Some ''old'') (TextArray [''ab''])
               (default_options\<lparr>loop := False\<rparr>) fresh_scheduler) (ticks 2)
     = Inr w_noloop_last_delete"
  by (simp add: te_defs w_noloop_last_delete_def numeral_2_eq_2)

text \<open>
  C3. With looping disabled, the tick that deletes the last character of the last text
  (the index would wrap to 0) writes the empty text and returns without scheduling:
  no timer is pending and every later tick finds nothing to do. For a list of
  non-empty texts the machine does get there: constructed on a host with no pending
  timer, it has stopped after exactly \<open>2 * (total length) - 1\<close> ticks, and has one
  timer pending at every moment before. (A text that is the empty string never
  completes its cycle: the typing branch compares the count 1 with the length 0.)
\<close>

theorem stops_after_last_text:
  "(\<not> isPaused (inst w) \<and> isDeleting (inst w) \<and> currentCharIndex (inst w) = 1
      \<and> currentTextIndex (inst w) < length (texts (inst w))
      \<and> (currentTextIndex (inst w) + 1) mod length (texts (inst w)) = 0
      \<and> \<not> loop (options (inst w)) \<and> element (inst w) \<noteq> None \<and> pending (sched w) = [t]
    \<longrightarrow> (\<exists>w'. tick w = Inr w'
           \<and> element (inst w') = Some [] \<and> currentTextIndex (inst w') = 0
           \<and> currentCharIndex (inst w') = 0 \<and> \<not> isDeleting (inst w')
           \<and> pending (sched w') = [] \<and> (\<forall>n. ticks n w' = Inr w')))
   \<and> (ts \<noteq> [] \<and> (\<forall>x\<in>set ts. x \<noteq> []) \<and> \<not> loop opts \<and> pending s = []
    \<longrightarrow> (\<exists>w'. and_then (new_TypingEffect (Some e) (TextArray ts) opts s)
                 (ticks (2 * sum_list (map length ts) - 1)) = Inr w'
           \<and> element (inst w') = Some [] \<and> currentTextIndex (inst w') = 0
           \<and> currentCharIndex (inst w') = 0 \<and> \<not> isDeleting (inst w')
           \<and> pending (sched w') = [] \<and> (\<forall>n. ticks n w' = Inr w')
           \<and> (\<forall>k < 2 * sum_list (map length ts) - 1.
                 \<exists>w''. and_then (new_TypingEffect (Some e) (TextArray ts) opts s) (ticks k)
                          = Inr w''
                      \<and> length (pending (sched w'')) = 1)))"
proof (intro conjI impI)
  assume a: "\<not> isPaused (inst w) \<and> isDeleting (inst w) \<and> currentCharIndex (inst w) = 1
      \<and> currentTextIndex (inst w) < length (texts (inst w))
      \<and> (currentTextIndex (inst w) + 1) mod length (texts (inst w)) = 0
      \<and> \<not> loop (options (inst w)) \<and> element (inst w) \<noteq> None \<and> pending (sched w) = [t]"
  let ?w0 = "w\<lparr>sched := (sched w)\<lparr>now := max (now (sched w)) (tm_due t), pending := []\<rparr>\<rparr>"
  have last: "Suc (currentTextIndex (inst w)) = length (texts (inst w))"
  proof (rule ccontr)
    assume "Suc (currentTextIndex (inst w)) \<noteq> length (texts (inst w))"
    with a have "Suc (currentTextIndex (inst w)) < length (texts (inst w))" by simp
    then have "(currentTextIndex (inst w) + 1) mod length (texts (inst w))
                 = Suc (currentTextIndex (inst w))" by simp
    with a show False by simp
  qed
  have at: "te_at ?w0 (texts (inst w)) (options (inst w)) (currentTextIndex (inst w)) 1 True"
    using a by (simp add: te_at_def)
  from type_step_stop[OF at last] a obtain w' where
    w': "type_step ?w0 = Inr w'" "element (inst w') = Some []" "currentTextIndex (inst w') = 0"
      "currentCharIndex (inst w') = 0" "\<not> isDeleting (inst w')" "sched w' = sched ?w0"
    by blast
  have "tick w = Inr w'" using a w'(1) by (simp add: tick_single)
  moreover have "pending (sched w') = []" using w'(6) by simp
  ultimately show "\<exists>w'. tick w = Inr w'
           \<and> element (inst w') = Some [] \<and> currentTextIndex (inst w') = 0
           \<and> currentCharIndex (inst w') = 0 \<and> \<not> isDeleting (inst w')
           \<and> pending (sched w') = [] \<and> (\<forall>n. ticks n w' = Inr w')"
    using w'(2-5) by (auto simp: ticks_idle)
next
  assume b: "ts \<noteq> [] \<and> (\<forall>x\<in>set ts. x \<noteq> []) \<and> \<not> loop opts \<and> pending s = []"
  let ?N = "2 * sum_list (map length ts) - 1"
  let ?init = "\<lparr>inst = \<lparr>element = Some [], texts = ts, options = opts,
                    currentTextIndex = 0, currentCharIndex = 0, isDeleting = False,
                    isPaused = False, timeoutId = None\<rparr>, sched = s\<rparr>"
  have new: "new_TypingEffect (Some e) (TextArray ts) opts s = type_step ?init"
    using b by (simp add: new_TypingEffect_def init_def start_def)
  have i0: "0 < length ts" using b by simp
  have l0: "0 < length (ts ! 0)" using b i0 by (metis length_greater_0_conv nth_mem)
  have at: "te_at ?init ts opts 0 0 False" by (simp add: te_at_def)
  from type_step_typing[OF at i0 l0] b obtain w1 t1 where
    w1: "type_step ?init = Inr w1" "te_at w1 ts opts 0 (Suc 0) (Suc 0 = length (ts ! 0))"
      "pending (sched w1) = [t1]"
    by auto
  have ts_eq: "sum_list (map length ts) = length (ts ! 0) + sum_list (map length (drop (Suc 0) ts))"
    using i0 by (cases ts) simp_all
  have r: "te_remaining ts 0 (Suc 0) (Suc 0 = length (ts ! 0)) = ?N"
  proof -
    define L where "L = length (ts ! 0)"
    define R where "R = sum_list (map length (drop (Suc 0) ts))"
    have "0 < L" using l0 by (simp add: L_def)
    then have "(if Suc 0 = L then Suc 0 else 2 * L - Suc 0) + 2 * R = 2 * (L + R) - 1"
      by (cases "Suc 0 = L") simp_all
    then show ?thesis
      unfolding te_remaining_def ts_eq L_def R_def by simp
  qed
  have v: "if Suc 0 = length (ts ! 0) then 1 \<le> Suc 0 \<and> Suc 0 \<le> length (ts ! 0)
           else Suc 0 < length (ts ! 0)"
    using l0 by (cases "length (ts ! 0)") auto
  have nl: "\<not> loop opts" and ne: "\<forall>x\<in>set ts. x \<noteq> []" using b by simp_all
  from run_to_stop[OF ne nl w1(2) w1(3) i0 v r] obtain w' where
    w': "ticks ?N w1 = Inr w'" "te_stopped w'"
      "\<forall>k<?N. \<exists>w''. ticks k w1 = Inr w'' \<and> length (pending (sched w'')) = 1"
    by blast
  show "\<exists>w'. and_then (new_TypingEffect (Some e) (TextArray ts) opts s) (ticks ?N) = Inr w'
           \<and> element (inst w') = Some [] \<and> currentTextIndex (inst w') = 0
           \<and> currentCharIndex (inst w') = 0 \<and> \<not> isDeleting (inst w')
           \<and> pending (sched w') = [] \<and> (\<forall>n. ticks n w' = Inr w')
           \<and> (\<forall>k < ?N.
                 \<exists>w''. and_then (new_TypingEffect (Some e) (TextArray ts) opts s) (ticks k)
                          = Inr w''
                      \<and> length (pending (sched w'')) = 1)"
    using w' by (intro exI[of _ w']) (simp add: new w1(1) te_stopped_def ticks_idle)
qed


theorem stops_after_last_text_witness:
  "\<not> isPaused (inst w_noloop_last_delete) \<and> isDeleting (inst w_noloop_last_delete)
   \<and> currentCharIndex (inst w_noloop_last_delete) = 1
   \<and> currentTextIndex (inst w_noloop_last_delete) < length (texts (inst w_noloop_last_delete))
   \<and> (currentTextIndex (inst w_noloop_last_delete) + 1)
         mod length (texts (inst w_noloop_last_delete)) = 0
   \<and> \<not> loop (options (inst w_noloop_last_delete))
   \<and> element (inst w_noloop_last_delete) \<noteq> None
   \<and> pending (sched w_noloop_last_delete) = [\<lparr>tm_handle = 3, tm_due = 2150, tm_callback = ()\<rparr>]
   \<and> tick w_noloop_last_delete = Inr w_noloop_stopped
   \<and> 2 * sum_list (map length [''ab'']) - 1 = (3::nat)
   \<and> and_then (new_TypingEffect (Some ''old'') (TextArray [''ab''])
                 (default_options\<lparr>loop := False\<rparr>) fresh_scheduler) (ticks 3)
       = Inr w_noloop_stopped
   \<and> element (inst w_noloop_stopped) = Some []
   \<and> pending (sched w_noloop_stopped) = []"
proof -
  have a: "tick w_noloop_last_delete = Inr w_noloop_stopped"
    by (simp add: te_defs w_noloop_last_delete_def w_noloop_stopped_def)
  have b: "and_then (new_TypingEffect (Some ''old'') (TextArray [''ab''])
                 (default_options\<lparr>loop := False\<rparr>) fresh_scheduler) (ticks 3)
       = Inr w_noloop_stopped"
    by (simp add: te_defs w_noloop_stopped_def numeral_3_eq_3)
  show ?thesis
    using stops_after_last_text
            [of w_noloop_last_delete "\<lparr>tm_handle = 3, tm_due = 2150, tm_callback = ()\<rparr>"
                "[''ab'']" "default_options\<lparr>loop := False\<rparr>" fresh_scheduler "''old''"]
          a b
    by (simp add: w_noloop_last_delete_def w_noloop_stopped_def default_options_def)
qed

subsection \<open>A text that is the empty string\<close>

text \<open>
  The typing branch tests \<^verbatim>\<open>currentCharIndex === currentText.length\<close> after the
  increment. Once the count is at or past the length the test never holds again: every
  tick types (the sink shows the whole text), the count grows and the next tick is
  scheduled. A list whose only text is the empty string starts in that situation, so
  its typewriter never turns to deleting and never stops, looping enabled or not.
\<close>

lemma typing_past_the_end:
  assumes "\<not> isPaused (inst w)" "\<not> isDeleting (inst w)"
      and "currentTextIndex (inst w) < length (texts (inst w))"
      and "element (inst w) \<noteq> None"
      and "int (length (texts (inst w) ! currentTextIndex (inst w))) \<le> currentCharIndex (inst w)"
      and "pending (sched w) = [t]"
  shows "\<exists>w' t'. ticks n w = Inr w'
           \<and> currentCharIndex (inst w') = currentCharIndex (inst w) + int n
           \<and> \<not> isDeleting (inst w') \<and> \<not> isPaused (inst w')
           \<and> currentTextIndex (inst w') = currentTextIndex (inst w)
           \<and> texts (inst w') = texts (inst w)
           \<and> pending (sched w') = [t']"
  using assms
proof (induction n arbitrary: w t)
  case 0
  then show ?case by simp
next
  case (Suc n)
  from Suc.prems obtain w1 t1 where w1: "tick w = Inr w1"
    "currentCharIndex (inst w1) = currentCharIndex (inst w) + 1"
    "\<not> isDeleting (inst w1)" "\<not> isPaused (inst w1)"
    "currentTextIndex (inst w1) = currentTextIndex (inst w)"
    "texts (inst w1) = texts (inst w)" "element (inst w1) \<noteq> None"
    "pending (sched w1) = [t1]"
    by (auto simp: tick_def fire_timer_def fired_def type_step_def write_and_schedule_def
        setTimeout_def Let_def)
  have "int (length (texts (inst w1) ! currentTextIndex (inst w1))) \<le> currentCharIndex (inst w1)"
    using w1 Suc.prems(5) by simp
  from Suc.IH[OF w1(4) w1(3) _ w1(7) this w1(8)] w1 Suc.prems(3)
  obtain w' t' where "ticks n w1 = Inr w'"
    "currentCharIndex (inst w') = currentCharIndex (inst w1) + int n"
    "\<not> isDeleting (inst w')" "\<not> isPaused (inst w')"
    "currentTextIndex (inst w') = currentTextIndex (inst w1)"
    "texts (inst w') = texts (inst w1)" "pending (sched w') = [t']"
    by auto
  then show ?case using w1 by auto
qed

lemma empty_text_never_completes:
  assumes "pending s = []"
  shows "\<exists>w' t'. and_then (new_TypingEffect (Some e) (TextArray [[]]) opts s) (ticks n) = Inr w'
           \<and> currentCharIndex (inst w') = 1 + int n \<and> \<not> isDeleting (inst w')
           \<and> pending (sched w') = [t']"
proof -
  obtain w1 t1 where w1: "new_TypingEffect (Some e) (TextArray [[]]) opts s = Inr w1"
    "\<not> isPaused (inst w1)" "\<not> isDeleting (inst w1)"
    "currentTextIndex (inst w1) = 0" "texts (inst w1) = [[]]" "element (inst w1) \<noteq> None"
    "currentCharIndex (inst w1) = 1" "pending (sched w1) = [t1]"
    using assms
    by (auto simp: new_TypingEffect_def init_def start_def type_step_def write_and_schedule_def
        setTimeout_def Let_def)
  have "currentTextIndex (inst w1) < length (texts (inst w1))" using w1 by simp
  moreover have "int (length (texts (inst w1) ! currentTextIndex (inst w1))) \<le> currentCharIndex (inst w1)"
    using w1 by simp
  ultimately show ?thesis
    using typing_past_the_end[OF w1(2) w1(3) _ w1(6) _ w1(8), of n] w1 by auto
qed


section \<open>Properties of the multi-line typewriter\<close>

lemmas ml_defs = new_MultiLineTypingEffect_def ml_init_def ml_start_def typeLine_def
  ml_tick_def ml_fire_timer_def ml_default_options_def setTimeout_def fired_def
  fresh_scheduler_def substring0_def Let_def

lemma ml_ticks_idle: "pending (sched w) = [] \<Longrightarrow> ml_ticks n w = Inr w"
  by (induction n) (simp_all add: ml_tick_def)

lemma m_first_char_constructed:
  "new_MultiLineTypingEffect (Some [Foreign]) [''c''] ml_default_options fresh_scheduler
     = Inr m_first_char"
  by (simp add: ml_defs m_first_char_def)

lemma m_completed_reached: "ml_tick m_first_char = Inr m_completed"
  by (simp add: ml_defs m_first_char_def m_completed_def)

lemma m_done_reached: "ml_tick m_completed = Inr m_done"
  by (simp add: ml_defs m_completed_def m_done_def)

text \<open>
  C6, as the spec states it, fails: \<^verbatim>\<open>typeLine()\<close> has no case for the last line.
  For the one line \<open>c\<close>, the construction writes the final character and schedules a
  timer; the tick that follows completes the line, moves the index to the number of
  lines and schedules one more timer.
\<close>

theorem timers_after_final_character_counterexample:
  "new_MultiLineTypingEffect (Some [Foreign]) [''c''] ml_default_options fresh_scheduler
     = Inr m_first_char
   \<and> elements (inst m_first_char) = [''c|'']
   \<and> pending (sched m_first_char) = [\<lparr>tm_handle = 1, tm_due = 80, tm_callback = ()\<rparr>]
   \<and> ml_tick m_first_char = Inr m_completed
   \<and> currentLineIndex (inst m_completed) = length (lines (inst m_completed))
   \<and> pending (sched m_completed) = [\<lparr>tm_handle = 2, tm_due = 580, tm_callback = ()\<rparr>]"
  by (simp add: ml_defs m_first_char_def m_completed_def)

subsection \<open>Running to the end\<close>

text \<open>One call of \<^verbatim>\<open>typeLine()\<close> in each of its three situations.\<close>

lemma typeLine_typing:
  assumes "ml_at w ls opts idx ci" "idx < length ls" "ci < length (ls ! idx)"
  shows "\<exists>w' t. typeLine w = Inr w' \<and> ml_at w' ls opts idx (Suc ci)
           \<and> elements (inst w') ! idx
               = (if ml_showCursor opts \<and> Suc idx = length ls
                  then take (Suc ci) (ls ! idx) @ ml_cursorChar opts
                  else take (Suc ci) (ls ! idx))
           \<and> pending (sched w') = pending (sched w) @ [t]
           \<and> tm_due t = now (sched w) + ml_typeSpeed opts
           \<and> now (sched w') = now (sched w)"
  using assms
  by (auto simp: ml_at_def typeLine_def setTimeout_def substring0_def Let_def nat_add_distrib)

lemma typeLine_completing:
  assumes "ml_at w ls opts idx ci" "idx < length ls" "length (ls ! idx) \<le> ci"
  shows "\<exists>w' t. typeLine w = Inr w' \<and> ml_at w' ls opts (Suc idx) 0
           \<and> elements (inst w') ! idx = ls ! idx
           \<and> pending (sched w') = pending (sched w) @ [t]
           \<and> tm_due t = now (sched w) + lineDelay opts
           \<and> now (sched w') = now (sched w)"
  using assms
  by (auto simp: ml_at_def typeLine_def setTimeout_def Let_def take_Suc_conv_app_nth)

lemma typeLine_done:
  assumes "ml_at w ls opts idx ci" "length ls \<le> idx"
  shows "typeLine w = Inr w \<and> elements (inst w) = ls"
  using assms by (auto simp: ml_at_def typeLine_def Let_def)

lemma ml_tick_single:
  assumes "pending (sched w) = [t]"
  shows "ml_tick w = typeLine (w\<lparr>sched := (sched w)\<lparr>now := max (now (sched w)) (tm_due t),
                                               pending := []\<rparr>\<rparr>)"
  using assms by (simp add: ml_tick_def ml_fire_timer_def fired_def)

lemma ml_at_sched [simp]: "ml_at (w\<lparr>sched := s\<rparr>) ls opts idx ci = ml_at w ls opts idx ci"
  by (simp add: ml_at_def)

lemma ml_run_to_done:
  "ml_at w ls opts idx ci \<Longrightarrow> pending (sched w) = [t] \<Longrightarrow> idx \<le> length ls
     \<Longrightarrow> Suc (ml_remaining ls idx ci) = n
     \<Longrightarrow> \<exists>w'. ml_ticks n w = Inr w' \<and> pending (sched w') = []
           \<and> currentLineIndex (inst w') = length ls \<and> elements (inst w') = ls
           \<and> (\<forall>k<n. \<exists>w''. ml_ticks k w = Inr w'' \<and> length (pending (sched w'')) = 1)"
proof (induction n arbitrary: w idx ci t)
  case 0
  then show ?case by simp
next
  case (Suc n)
  let ?w0 = "w\<lparr>sched := (sched w)\<lparr>now := max (now (sched w)) (tm_due t), pending := []\<rparr>\<rparr>"
  have tick: "ml_tick w = typeLine ?w0" using Suc.prems(2) by (rule ml_tick_single)
  have at0: "ml_at ?w0 ls opts idx ci" using Suc.prems(1) by simp
  have p0: "pending (sched ?w0) = []" by simp
  have zero_case: "\<exists>w''. ml_ticks 0 w = Inr w'' \<and> length (pending (sched w'')) = 1"
    using Suc.prems(2) by simp
  have drop_eq: "sum_list (map (\<lambda>l. Suc (length l)) (drop j ls))
                   = Suc (length (ls ! j)) + sum_list (map (\<lambda>l. Suc (length l)) (drop (Suc j) ls))"
    if "j < length ls" for j
    using that by (simp add: Cons_nth_drop_Suc[symmetric])
  have continue: ?case
    if st: "typeLine ?w0 = Inr w1" and at1: "ml_at w1 ls opts idx1 ci1"
      and p1: "pending (sched w1) = [t1]" and i1: "idx1 \<le> length ls"
      and r1: "Suc (ml_remaining ls idx1 ci1) = n"
    for w1 idx1 ci1 t1
  proof -
    from Suc.IH[OF at1 p1 i1 r1] obtain w' where
      w': "ml_ticks n w1 = Inr w'" "pending (sched w') = []"
      "currentLineIndex (inst w') = length ls" "elements (inst w') = ls"
      "\<forall>k<n. \<exists>w''. ml_ticks k w1 = Inr w'' \<and> length (pending (sched w'')) = 1"
      by blast
    have "ml_ticks (Suc n) w = Inr w'" using tick st w'(1) by simp
    moreover have "\<exists>w''. ml_ticks k w = Inr w'' \<and> length (pending (sched w'')) = 1"
      if "k < Suc n" for k
    proof (cases k)
      case 0
      then show ?thesis using zero_case by simp
    next
      case (Suc k')
      then have "k' < n" using that by simp
      with w'(5) obtain w'' where "ml_ticks k' w1 = Inr w''" "length (pending (sched w'')) = 1"
        by blast
      then show ?thesis using Suc tick st by simp
    qed
    ultimately show ?thesis using w'(2-4) by blast
  qed
  show ?case
  proof (cases "idx < length ls")
    case inside: True
    show ?thesis
    proof (cases "ci < length (ls ! idx)")
      case True
      from typeLine_typing[OF at0 inside True] p0
      obtain w1 t1 where w1: "typeLine ?w0 = Inr w1" "ml_at w1 ls opts idx (Suc ci)"
        "pending (sched w1) = [t1]"
        by auto
      have r: "Suc (ml_remaining ls idx (Suc ci)) = n"
        using Suc.prems(4) inside True by (simp add: ml_remaining_def)
      show ?thesis by (rule continue[OF w1(1) w1(2) w1(3) Suc.prems(3) r])
    next
      case False
      then have ge: "length (ls ! idx) \<le> ci" by simp
      from typeLine_completing[OF at0 inside ge] p0
      obtain w1 t1 where w1: "typeLine ?w0 = Inr w1" "ml_at w1 ls opts (Suc idx) 0"
        "pending (sched w1) = [t1]"
        by auto
      have i1: "Suc idx \<le> length ls" using inside by simp
      have r: "Suc (ml_remaining ls (Suc idx) 0) = n"
      proof (cases "Suc idx < length ls")
        case True
        then show ?thesis using Suc.prems(4) inside ge drop_eq[OF True]
          by (simp add: ml_remaining_def)
      next
        case False
        with inside have "drop (Suc idx) ls = []" by simp
        then show ?thesis using Suc.prems(4) inside ge False by (simp add: ml_remaining_def)
      qed
      show ?thesis by (rule continue[OF w1(1) w1(2) w1(3) i1 r])
    qed
  next
    case False
    with Suc.prems(3) have l: "idx = length ls" by simp
    then have n0: "n = 0" using Suc.prems(4) by (simp add: ml_remaining_def)
    from typeLine_done[OF at0] l have d: "typeLine ?w0 = Inr ?w0" "elements (inst ?w0) = ls"
      by simp_all
    have "ml_ticks (Suc n) w = Inr ?w0" using tick d(1) n0 by simp
    moreover have "currentLineIndex (inst ?w0) = length ls"
      using Suc.prems(1) l by (simp add: ml_at_def)
    moreover have "\<forall>k<Suc n. \<exists>w''. ml_ticks k w = Inr w'' \<and> length (pending (sched w'')) = 1"
      using n0 zero_case by simp
    ultimately show ?thesis using d(2) p0 by blast
  qed
qed


lemma ml_completion_steps:
  assumes "pending (sched w) = [t]"
      and "Suc (currentLineIndex (inst w)) = length (lines (inst w))"
      and "currentLineIndex (inst w) < length (elements (inst w))"
      and "ml_currentCharIndex (inst w) = length (lines (inst w) ! currentLineIndex (inst w))"
  shows "\<exists>w1 t1. ml_tick w = Inr w1
           \<and> currentLineIndex (inst w1) = length (lines (inst w))
           \<and> elements (inst w1) ! currentLineIndex (inst w)
               = lines (inst w) ! currentLineIndex (inst w)
           \<and> pending (sched w1) = [t1]
           \<and> tm_due t1 = now (sched w1) + lineDelay (ml_opts (inst w))
           \<and> (\<exists>w2. ml_tick w1 = Inr w2 \<and> inst w2 = inst w1 \<and> pending (sched w2) = []
                  \<and> (\<forall>n. ml_ticks n w2 = Inr w2))"
  using assms
  by (simp add: ml_tick_def ml_fire_timer_def typeLine_def fired_def setTimeout_def Let_def
      ml_ticks_idle)

lemma ml_final_character_step:
  assumes "pending (sched w) = []"
      and "Suc (currentLineIndex (inst w)) = length (lines (inst w))"
      and "currentLineIndex (inst w) < length (elements (inst w))"
      and "Suc (ml_currentCharIndex (inst w))
             = length (lines (inst w) ! currentLineIndex (inst w))"
  shows "\<exists>w0 t0. typeLine w = Inr w0
           \<and> elements (inst w0) ! currentLineIndex (inst w)
               = (if ml_showCursor (ml_opts (inst w))
                  then lines (inst w) ! currentLineIndex (inst w) @ ml_cursorChar (ml_opts (inst w))
                  else lines (inst w) ! currentLineIndex (inst w))
           \<and> pending (sched w0) = [t0]
           \<and> tm_due t0 = now (sched w) + ml_typeSpeed (ml_opts (inst w))
           \<and> lines (inst w0) = lines (inst w) \<and> ml_opts (inst w0) = ml_opts (inst w)
           \<and> currentLineIndex (inst w0) = currentLineIndex (inst w)
           \<and> length (elements (inst w0)) = length (elements (inst w))
           \<and> ml_currentCharIndex (inst w0)
               = length (lines (inst w) ! currentLineIndex (inst w))"
  using assms
  by (auto simp: typeLine_def setTimeout_def substring0_def Let_def nat_add_distrib)

text \<open>
  C6, amended. Writing the final character of the last line still schedules a timer,
  \<open>typeSpeed\<close> later. When it fires, the tick writes the line alone to its sink,
  moves the line index to the number of lines and schedules one more timer,
  \<open>lineDelay\<close> later. When that timer fires the tick changes nothing and schedules
  nothing: only from then on is no timer pending and no tick runs. Built for any
  non-empty list of lines on a host with no timer pending, the machine gets there after
  exactly (total length + number of lines) ticks, every sink showing its line, with one
  timer pending at every moment before.
\<close>

theorem last_line_completion_then_done:
  "(pending (sched w) = []
      \<and> Suc (currentLineIndex (inst w)) = length (lines (inst w))
      \<and> currentLineIndex (inst w) < length (elements (inst w))
      \<and> Suc (ml_currentCharIndex (inst w)) = length (lines (inst w) ! currentLineIndex (inst w))
    \<longrightarrow> (\<exists>w0 t0. typeLine w = Inr w0
           \<and> elements (inst w0) ! currentLineIndex (inst w)
               = (if ml_showCursor (ml_opts (inst w))
                  then lines (inst w) ! currentLineIndex (inst w) @ ml_cursorChar (ml_opts (inst w))
                  else lines (inst w) ! currentLineIndex (inst w))
           \<and> pending (sched w0) = [t0]
           \<and> tm_due t0 = now (sched w) + ml_typeSpeed (ml_opts (inst w))
           \<and> (\<exists>w1 t1. ml_tick w0 = Inr w1
                 \<and> currentLineIndex (inst w1) = length (lines (inst w))
                 \<and> elements (inst w1) ! currentLineIndex (inst w)
                     = lines (inst w) ! currentLineIndex (inst w)
                 \<and> pending (sched w1) = [t1]
                 \<and> tm_due t1 = now (sched w1) + lineDelay (ml_opts (inst w))
                 \<and> (\<exists>w2. ml_tick w1 = Inr w2 \<and> inst w2 = inst w1 \<and> pending (sched w2) = []
                        \<and> (\<forall>n. ml_ticks n w2 = Inr w2)))))
   \<and> (pending (sched v) = [t]
      \<and> Suc (currentLineIndex (inst v)) = length (lines (inst v))
      \<and> currentLineIndex (inst v) < length (elements (inst v))
      \<and> ml_currentCharIndex (inst v) = length (lines (inst v) ! currentLineIndex (inst v))
    \<longrightarrow> (\<exists>w1 t1. ml_tick v = Inr w1
           \<and> currentLineIndex (inst w1) = length (lines (inst v))
           \<and> elements (inst w1) ! currentLineIndex (inst v)
               = lines (inst v) ! currentLineIndex (inst v)
           \<and> pending (sched w1) = [t1]
           \<and> tm_due t1 = now (sched w1) + lineDelay (ml_opts (inst v))
           \<and> (\<exists>w2. ml_tick w1 = Inr w2 \<and> inst w2 = inst w1 \<and> pending (sched w2) = []
                  \<and> (\<forall>n. ml_ticks n w2 = Inr w2))))
   \<and> (ls \<noteq> [] \<and> pending s = []
    \<longrightarrow> (\<exists>w'. and_then (new_MultiLineTypingEffect (Some c) ls opts s)
                 (ml_ticks (sum_list (map (\<lambda>l. Suc (length l)) ls))) = Inr w'
           \<and> pending (sched w') = [] \<and> currentLineIndex (inst w') = length ls
           \<and> elements (inst w') = ls \<and> (\<forall>n. ml_ticks n w' = Inr w')
           \<and> (\<forall>k < sum_list (map (\<lambda>l. Suc (length l)) ls).
                 \<exists>w''. and_then (new_MultiLineTypingEffect (Some c) ls opts s) (ml_ticks k)
                          = Inr w''
                      \<and> length (pending (sched w'')) = 1)))"
proof (intro conjI impI)
  assume a: "pending (sched w) = []
      \<and> Suc (currentLineIndex (inst w)) = length (lines (inst w))
      \<and> currentLineIndex (inst w) < length (elements (inst w))
      \<and> Suc (ml_currentCharIndex (inst w)) = length (lines (inst w) ! currentLineIndex (inst w))"
  then obtain w0 t0 where w0: "typeLine w = Inr w0"
    "elements (inst w0) ! currentLineIndex (inst w)
               = (if ml_showCursor (ml_opts (inst w))
                  then lines (inst w) ! currentLineIndex (inst w) @ ml_cursorChar (ml_opts (inst w))
                  else lines (inst w) ! currentLineIndex (inst w))"
    "pending (sched w0) = [t0]"
    "tm_due t0 = now (sched w) + ml_typeSpeed (ml_opts (inst w))"
    "lines (inst w0) = lines (inst w)" "ml_opts (inst w0) = ml_opts (inst w)"
    "currentLineIndex (inst w0) = currentLineIndex (inst w)"
    "length (elements (inst w0)) = length (elements (inst w))"
    "ml_currentCharIndex (inst w0) = length (lines (inst w) ! currentLineIndex (inst w))"
    using ml_final_character_step[of w] by blast
  have "\<exists>w1 t1. ml_tick w0 = Inr w1
           \<and> currentLineIndex (inst w1) = length (lines (inst w0))
           \<and> elements (inst w1) ! currentLineIndex (inst w0)
               = lines (inst w0) ! currentLineIndex (inst w0)
           \<and> pending (sched w1) = [t1]
           \<and> tm_due t1 = now (sched w1) + lineDelay (ml_opts (inst w0))
           \<and> (\<exists>w2. ml_tick w1 = Inr w2 \<and> inst w2 = inst w1 \<and> pending (sched w2) = []
                  \<and> (\<forall>n. ml_ticks n w2 = Inr w2))"
    using a w0 by (intro ml_completion_steps[of w0 t0]) simp_all
  then show "\<exists>w0 t0. typeLine w = Inr w0
           \<and> elements (inst w0) ! currentLineIndex (inst w)
               = (if ml_showCursor (ml_opts (inst w))
                  then lines (inst w) ! currentLineIndex (inst w) @ ml_cursorChar (ml_opts (inst w))
                  else lines (inst w) ! currentLineIndex (inst w))
           \<and> pending (sched w0) = [t0]
           \<and> tm_due t0 = now (sched w) + ml_typeSpeed (ml_opts (inst w))
           \<and> (\<exists>w1 t1. ml_tick w0 = Inr w1
                 \<and> currentLineIndex (inst w1) = length (lines (inst w))
                 \<and> elements (inst w1) ! currentLineIndex (inst w)
                     = lines (inst w) ! currentLineIndex (inst w)
                 \<and> pending (sched w1) = [t1]
                 \<and> tm_due t1 = now (sched w1) + lineDelay (ml_opts (inst w))
                 \<and> (\<exists>w2. ml_tick w1 = Inr w2 \<and> inst w2 = inst w1 \<and> pending (sched w2) = []
                        \<and> (\<forall>n. ml_ticks n w2 = Inr w2)))"
    using w0 by (intro exI[of _ w0] exI[of _ t0]) simp
next
  assume "pending (sched v) = [t]
      \<and> Suc (currentLineIndex (inst v)) = length (lines (inst v))
      \<and> currentLineIndex (inst v) < length (elements (inst v))
      \<and> ml_currentCharIndex (inst v) = length (lines (inst v) ! currentLineIndex (inst v))"
  then show "\<exists>w1 t1. ml_tick v = Inr w1
           \<and> currentLineIndex (inst w1) = length (lines (inst v))
           \<and> elements (inst w1) ! currentLineIndex (inst v)
               = lines (inst v) ! currentLineIndex (inst v)
           \<and> pending (sched w1) = [t1]
           \<and> tm_due t1 = now (sched w1) + lineDelay (ml_opts (inst v))
           \<and> (\<exists>w2. ml_tick w1 = Inr w2 \<and> inst w2 = inst w1 \<and> pending (sched w2) = []
                  \<and> (\<forall>n. ml_ticks n w2 = Inr w2))"
    using ml_completion_steps[of v t] by blast
next
  assume b: "ls \<noteq> [] \<and> pending s = []"
  let ?N = "sum_list (map (\<lambda>l. Suc (length l)) ls)"
  let ?init = "\<lparr>inst = \<lparr>container = Some (map LineDiv [0..<length ls]), lines = ls,
                         ml_opts = opts, currentLineIndex = 0, ml_currentCharIndex = 0,
                         ml_timeoutId = None, elements = replicate (length ls) []\<rparr>,
                sched = s\<rparr>"
  have new: "new_MultiLineTypingEffect (Some c) ls opts s = typeLine ?init"
    using b by (simp add: new_MultiLineTypingEffect_def ml_init_def ml_start_def Let_def)
  have i0: "0 < length ls" using b by simp
  have at: "ml_at ?init ls opts 0 0" by (simp add: ml_at_def)
  have N_eq: "?N = Suc (length (ls ! 0)) + sum_list (map (\<lambda>l. Suc (length l)) (drop (Suc 0) ls))"
    using i0 by (cases ls) simp_all
  have "\<exists>w1 t1 idx1 ci1. typeLine ?init = Inr w1 \<and> ml_at w1 ls opts idx1 ci1
          \<and> pending (sched w1) = [t1] \<and> idx1 \<le> length ls
          \<and> Suc (ml_remaining ls idx1 ci1) = ?N"
  proof (cases "0 < length (ls ! 0)")
    case True
    from typeLine_typing[OF at i0 True] b
    obtain w1 t1 where w1: "typeLine ?init = Inr w1" "ml_at w1 ls opts 0 (Suc 0)"
      "pending (sched w1) = [t1]"
      by auto
    have "Suc (ml_remaining ls 0 (Suc 0)) = ?N"
      using i0 True N_eq by (simp add: ml_remaining_def)
    with w1 show ?thesis by (intro exI[of _ w1] exI[of _ t1] exI[of _ 0] exI[of _ "Suc 0"]) simp
  next
    case False
    then have z: "length (ls ! 0) \<le> 0" by simp
    from typeLine_completing[OF at i0 z] b
    obtain w1 t1 where w1: "typeLine ?init = Inr w1" "ml_at w1 ls opts (Suc 0) 0"
      "pending (sched w1) = [t1]"
      by auto
    have "Suc (ml_remaining ls (Suc 0) 0) = ?N"
    proof (cases "Suc 0 < length ls")
      case True
      then have "sum_list (map (\<lambda>l. Suc (length l)) (drop (Suc 0) ls))
                   = Suc (length (ls ! Suc 0))
                     + sum_list (map (\<lambda>l. Suc (length l)) (drop (Suc (Suc 0)) ls))"
        by (simp add: Cons_nth_drop_Suc[symmetric])
      then show ?thesis using True False N_eq by (simp add: ml_remaining_def)
    next
      case F: False
      with i0 have "drop (Suc 0) ls = []" by simp
      then show ?thesis using F False N_eq by (simp add: ml_remaining_def)
    qed
    moreover have "Suc 0 \<le> length ls" using i0 by (cases ls) simp_all
    ultimately show ?thesis using w1
      by (intro exI[of _ w1] exI[of _ t1] exI[of _ "Suc 0"] exI[of _ 0]) simp
  qed
  then obtain w1 t1 idx1 ci1 where w1: "typeLine ?init = Inr w1" "ml_at w1 ls opts idx1 ci1"
    "pending (sched w1) = [t1]" "idx1 \<le> length ls" "Suc (ml_remaining ls idx1 ci1) = ?N"
    by blast
  from ml_run_to_done[OF w1(2) w1(3) w1(4) w1(5)] obtain w' where
    w': "ml_ticks ?N w1 = Inr w'" "pending (sched w') = []"
      "currentLineIndex (inst w') = length ls" "elements (inst w') = ls"
      "\<forall>k<?N. \<exists>w''. ml_ticks k w1 = Inr w'' \<and> length (pending (sched w'')) = 1"
    by blast
  show "\<exists>w'. and_then (new_MultiLineTypingEffect (Some c) ls opts s) (ml_ticks ?N) = Inr w'
           \<and> pending (sched w') = [] \<and> currentLineIndex (inst w') = length ls
           \<and> elements (inst w') = ls \<and> (\<forall>n. ml_ticks n w' = Inr w')
           \<and> (\<forall>k < ?N.
                 \<exists>w''. and_then (new_MultiLineTypingEffect (Some c) ls opts s) (ml_ticks k)
                          = Inr w''
                      \<and> length (pending (sched w'')) = 1)"
    using w' by (intro exI[of _ w']) (simp add: new w1(1) ml_ticks_idle)
qed

theorem last_line_completion_then_done_witness:
  "pending (sched m_created) = []
   \<and> Suc (currentLineIndex (inst m_created)) = length (lines (inst m_created))
   \<and> currentLineIndex (inst m_created) < length (elements (inst m_created))
   \<and> Suc (ml_currentCharIndex (inst m_created))
       = length (lines (inst m_created) ! currentLineIndex (inst m_created))
   \<and> typeLine m_created = Inr m_first_char
   \<and> pending (sched m_first_char) = [\<lparr>tm_handle = 1, tm_due = 80, tm_callback = ()\<rparr>]
   \<and> ml_currentCharIndex (inst m_first_char)
       = length (lines (inst m_first_char) ! currentLineIndex (inst m_first_char))
   \<and> ml_tick m_first_char = Inr m_completed
   \<and> pending (sched m_completed) = [\<lparr>tm_handle = 2, tm_due = 580, tm_callback = ()\<rparr>]
   \<and> ml_tick m_completed = Inr m_done
   \<and> pending (sched m_done) = []
   \<and> sum_list (map (\<lambda>l. Suc (length l)) [''c'']) = 2
   \<and> and_then (new_MultiLineTypingEffect (Some [Foreign]) [''c''] ml_default_options
                 fresh_scheduler) (ml_ticks 2) = Inr m_done"
proof -
  have b: "and_then (new_MultiLineTypingEffect (Some [Foreign]) [''c''] ml_default_options
                 fresh_scheduler) (ml_ticks 2) = Inr m_done"
    by (simp add: ml_defs m_done_def numeral_2_eq_2)
  show ?thesis
    using last_line_completion_then_done
          [of m_created m_first_char "\<lparr>tm_handle = 1, tm_due = 80, tm_callback = ()\<rparr>"
              "[''c'']" fresh_scheduler "[Foreign]" ml_default_options]
        b
    by (simp add: ml_defs m_created_def m_first_char_def m_completed_def m_done_def)
qed


text \<open>
  C7, as the spec states it, fails: the completion branch of \<^verbatim>\<open>typeLine()\<close>
  overwrites the sink with the line alone (the source marks it \<^verbatim>\<open>// Remove cursor\<close>),
  for the last line as for every other. With the cursor \<open>|\<close> configured the sink of
  the one line \<open>c\<close> shows \<open>c|\<close> while typing and \<open>c\<close> once the line is complete.
\<close>

theorem cursor_removed_on_completion_counterexample:
  "ml_showCursor (ml_opts (inst m_first_char))
   \<and> ml_cursorChar (ml_opts (inst m_first_char)) = ''|''
   \<and> elements (inst m_first_char) = [''c|'']
   \<and> ml_ticks 1 m_first_char = Inr m_completed
   \<and> elements (inst m_completed) = [''c'']
   \<and> ml_ticks 2 m_first_char = Inr m_done
   \<and> elements (inst m_done) = [''c'']"
proof -
  have "ml_ticks (Suc 0) m_first_char = Inr m_completed"
    by (simp add: m_completed_reached)
  moreover have "ml_ticks (Suc (Suc 0)) m_first_char = Inr m_done"
    by (simp add: m_completed_reached m_done_reached)
  ultimately show ?thesis
    by (simp add: numeral_2_eq_2 m_first_char_def m_completed_def m_done_def
        ml_default_options_def)
qed

text \<open>
  C7, amended. With the cursor configured, each typing step of the last line writes the
  typed prefix followed by the cursor character to the last sink; the completion step
  of a line (the last one included) writes the line alone, so the cursor does not
  remain in the final sink's content.
\<close>

theorem cursor_while_typing_removed_on_completion:
  assumes "currentLineIndex (inst w) < length (lines (inst w))"
      and "currentLineIndex (inst w) < length (elements (inst w))"
  shows "(ml_currentCharIndex (inst w) < length (lines (inst w) ! currentLineIndex (inst w))
          \<and> ml_showCursor (ml_opts (inst w))
          \<and> Suc (currentLineIndex (inst w)) = length (lines (inst w)) \<longrightarrow>
            (\<exists>w1. typeLine w = Inr w1
               \<and> elements (inst w1) ! currentLineIndex (inst w)
                   = take (Suc (ml_currentCharIndex (inst w)))
                       (lines (inst w) ! currentLineIndex (inst w))
                     @ ml_cursorChar (ml_opts (inst w))))
       \<and> (length (lines (inst w) ! currentLineIndex (inst w)) \<le> ml_currentCharIndex (inst w) \<longrightarrow>
            (\<exists>w1. typeLine w = Inr w1
               \<and> elements (inst w1) ! currentLineIndex (inst w)
                   = lines (inst w) ! currentLineIndex (inst w)
               \<and> currentLineIndex (inst w1) = Suc (currentLineIndex (inst w))))"
  using assms
  by (auto simp: typeLine_def setTimeout_def substring0_def Let_def nat_add_distrib)

theorem cursor_while_typing_removed_on_completion_witness:
  "(\<exists>w0 w1. typeLine w0 = Inr w1
        \<and> currentLineIndex (inst w0) = 0 \<and> lines (inst w0) = [''c'']
        \<and> length (elements (inst w0)) = 1
        \<and> ml_currentCharIndex (inst w0) = 0 \<and> ml_showCursor (ml_opts (inst w0))
        \<and> elements (inst w1) ! 0 = ''c|'')
   \<and> (\<exists>w1. typeLine (m_first_char\<lparr>sched := fired \<lparr>tm_handle = 1, tm_due = 80, tm_callback = ()\<rparr>
                                                (sched m_first_char)\<rparr>) = Inr w1
        \<and> ml_currentCharIndex (inst m_first_char) = 1
        \<and> elements (inst w1) ! 0 = ''c'' \<and> currentLineIndex (inst w1) = 1)"
proof -
  let ?w0 = "\<lparr>inst = \<lparr>container = Some [LineDiv 0], lines = [''c''],
                       ml_opts = ml_default_options, currentLineIndex = 0,
                       ml_currentCharIndex = 0, ml_timeoutId = None, elements = [[]]\<rparr>,
              sched = fresh_scheduler :: unit scheduler\<rparr>"
  let ?w1 = "m_first_char\<lparr>sched := fired \<lparr>tm_handle = 1, tm_due = 80, tm_callback = ()\<rparr>
                                      (sched m_first_char)\<rparr>"
  have a: "\<exists>w1. typeLine ?w0 = Inr w1 \<and> elements (inst w1) ! 0 = ''c|''"
    using cursor_while_typing_removed_on_completion [of ?w0]
    by (simp add: ml_default_options_def)
  have b: "\<exists>w1. typeLine ?w1 = Inr w1 \<and> elements (inst w1) ! 0 = ''c''
             \<and> currentLineIndex (inst w1) = 1"
    using cursor_while_typing_removed_on_completion [of ?w1]
    by (simp add: m_first_char_def)
  from a obtain w1 where "typeLine ?w0 = Inr w1" "elements (inst w1) ! 0 = ''c|''" by blast
  then have "\<exists>w0 w1. typeLine w0 = Inr w1
        \<and> currentLineIndex (inst w0) = 0 \<and> lines (inst w0) = [''c'']
        \<and> length (elements (inst w0)) = 1
        \<and> ml_currentCharIndex (inst w0) = 0 \<and> ml_showCursor (ml_opts (inst w0))
        \<and> elements (inst w1) ! 0 = ''c|''"
    by (intro exI[of _ ?w0] exI[of _ w1]) (simp add: ml_default_options_def)
  with b show ?thesis by (simp add: m_first_char_def)
qed

section \<open>Degenerate constructions\<close>

text \<open>
  C8. Constructing either typewriter with a missing sink or an empty list does not
  throw: \<^verbatim>\<open>init()\<close> returns at its first line. The instance keeps its initial
  fields, the sink (when there is one) keeps its content, no line element is created
  and the host's timers are untouched: no timer is scheduled, so no tick of the
  instance ever runs.
\<close>

theorem degenerate_construction_is_inert:
  "(el = None \<or> texts_of txts = [] \<longrightarrow>
      new_TypingEffect el txts opts s
        = Inr \<lparr>inst = \<lparr>element = el, texts = texts_of txts, options = opts,
                        currentTextIndex = 0, currentCharIndex = 0, isDeleting = False,
                        isPaused = False, timeoutId = None\<rparr>,
               sched = s\<rparr>
      \<and> (pending s = [] \<longrightarrow>
           (\<forall>n. and_then (new_TypingEffect el txts opts s) (ticks n)
                  = new_TypingEffect el txts opts s)))
   \<and> (c = None \<or> ls = [] \<longrightarrow>
      new_MultiLineTypingEffect c ls mopts s
        = Inr \<lparr>inst = \<lparr>container = c, lines = ls, ml_opts = mopts, currentLineIndex = 0,
                        ml_currentCharIndex = 0, ml_timeoutId = None, elements = []\<rparr>,
               sched = s\<rparr>
      \<and> (pending s = [] \<longrightarrow>
           (\<forall>n. and_then (new_MultiLineTypingEffect c ls mopts s) (ml_ticks n)
                  = new_MultiLineTypingEffect c ls mopts s)))"
proof -
  have te: "new_TypingEffect el txts opts s
        = Inr \<lparr>inst = \<lparr>element = el, texts = texts_of txts, options = opts,
                        currentTextIndex = 0, currentCharIndex = 0, isDeleting = False,
                        isPaused = False, timeoutId = None\<rparr>,
               sched = s\<rparr>"
    if "el = None \<or> texts_of txts = []"
    using that by (auto simp: new_TypingEffect_def init_def)
  have ml: "new_MultiLineTypingEffect c ls mopts s
        = Inr \<lparr>inst = \<lparr>container = c, lines = ls, ml_opts = mopts, currentLineIndex = 0,
                        ml_currentCharIndex = 0, ml_timeoutId = None, elements = []\<rparr>,
               sched = s\<rparr>"
    if "c = None \<or> ls = []"
    using that by (auto simp: new_MultiLineTypingEffect_def ml_init_def)
  show ?thesis
    using te ml by (auto simp: ticks_idle ml_ticks_idle)
qed

theorem degenerate_construction_is_inert_witness:
  "new_TypingEffect None (TextArray [''ab'']) default_options fresh_scheduler
     = Inr \<lparr>inst = \<lparr>element = None, texts = [''ab''], options = default_options,
                     currentTextIndex = 0, currentCharIndex = 0, isDeleting = False,
                     isPaused = False, timeoutId = None\<rparr>,
            sched = fresh_scheduler\<rparr>
   \<and> new_TypingEffect (Some ''old'') (TextArray []) default_options fresh_scheduler
     = Inr \<lparr>inst = \<lparr>element = Some ''old'', texts = [], options = default_options,
                     currentTextIndex = 0, currentCharIndex = 0, isDeleting = False,
                     isPaused = False, timeoutId = None\<rparr>,
            sched = fresh_scheduler\<rparr>
   \<and> new_MultiLineTypingEffect None [''c''] ml_default_options fresh_scheduler
     = Inr \<lparr>inst = \<lparr>container = None, lines = [''c''], ml_opts = ml_default_options,
                     currentLineIndex = 0, ml_currentCharIndex = 0, ml_timeoutId = None,
                     elements = []\<rparr>,
            sched = fresh_scheduler\<rparr>
   \<and> new_MultiLineTypingEffect (Some [Foreign]) [] ml_default_options fresh_scheduler
     = Inr \<lparr>inst = \<lparr>container = Some [Foreign], lines = [], ml_opts = ml_default_options,
                     currentLineIndex = 0, ml_currentCharIndex = 0, ml_timeoutId = None,
                     elements = []\<rparr>,
            sched = fresh_scheduler\<rparr>
   \<and> pending (fresh_scheduler :: unit scheduler) = []
   \<and> and_then (new_TypingEffect None (TextArray [''ab'']) default_options fresh_scheduler)
        (ticks 3)
     = new_TypingEffect None (TextArray [''ab'']) default_options fresh_scheduler"
  using degenerate_construction_is_inert
          [of None "TextArray [''ab'']" default_options fresh_scheduler None "[''c'']"
              ml_default_options]
        degenerate_construction_is_inert
          [of "Some ''old''" "TextArray []" default_options fresh_scheduler "Some [Foreign]" "[]"
              ml_default_options]
  by (simp add: fresh_scheduler_def ticks_idle)

section \<open>Properties of the timing primitives\<close>

subsection \<open>Letting time pass with at most one timer pending\<close>

declare run_due.simps [simp del]

lemma run_due_none: "pending (sched w) = [] \<Longrightarrow> run_due exec t w = w"
  by (subst run_due.simps) simp

lemma run_due_single_due:
  assumes "pending (sched w) = [tm]" "tm_due tm \<le> t"
  shows "run_due exec t w =
           \<lparr>inst = exec (tm_callback tm) (max (now (sched w)) (tm_due tm)) (inst w),
            sched = (sched w)\<lparr>now := max (now (sched w)) (tm_due tm), pending := []\<rparr>\<rparr>"
  using assms
  by (subst run_due.simps) (simp add: fired_def run_due_none)

lemma run_due_single_later:
  assumes "pending (sched w) = [tm]" "t < tm_due tm"
  shows "run_due exec t w = w"
  using assms by (subst run_due.simps) simp

subsection \<open>throttle\<close>

lemma th_spaced_snoc:
  assumes "th_spaced limit log" "\<forall>x\<in>set log. fst x + limit \<le> t"
  shows "th_spaced limit (log @ [(t, a)])"
  unfolding th_spaced_def
proof (intro allI impI)
  fix j i assume j: "j < length (log @ [(t, a)])" and i: "i < j"
  show "fst ((log @ [(t, a)]) ! i) + limit \<le> fst ((log @ [(t, a)]) ! j)"
  proof (cases "j < length log")
    case True
    then show ?thesis using assms(1) i by (simp add: th_spaced_def nth_append)
  next
    case False
    with j have jl: "j = length log" by simp
    with i have "log ! i \<in> set log" by simp
    with assms(2) have "fst (log ! i) + limit \<le> t" by blast
    then show ?thesis using jl i by (simp add: nth_append)
  qed
qed

lemma th_inv_fresh: "th_inv limit (throttle limit fresh_scheduler)"
  by (simp add: th_inv_def throttle_def fresh_scheduler_def th_spaced_def)

lemma th_call_inv:
  assumes "th_inv limit w"
  shows "th_inv limit (throttled_call a w)"
proof (cases "inThrottle (inst w)")
  case True
  then show ?thesis using assms by (simp add: throttled_call_def)
next
  case False
  have sp: "th_spaced limit (th_invocations (inst w) @ [(now (sched w), a)])"
  proof (rule th_spaced_snoc)
    show "th_spaced limit (th_invocations (inst w))" using assms by (simp add: th_inv_def)
    show "\<forall>x\<in>set (th_invocations (inst w)). fst x + limit \<le> now (sched w)"
    proof
      fix x assume x: "x \<in> set (th_invocations (inst w))"
      then have ne: "th_invocations (inst w) \<noteq> []" by auto
      then have l: "fst (last (th_invocations (inst w))) + limit \<le> now (sched w)"
        using assms False by (simp add: th_inv_def)
      obtain i where i: "i < length (th_invocations (inst w))" "x = th_invocations (inst w) ! i"
        using x by (auto simp: in_set_conv_nth)
      show "fst x + limit \<le> now (sched w)"
      proof (cases "Suc i = length (th_invocations (inst w))")
        case True
        then have "i = length (th_invocations (inst w)) - 1" by simp
        then have "x = last (th_invocations (inst w))" using i(2) ne by (simp add: last_conv_nth)
        then show ?thesis using l by simp
      next
        case False
        then have "i < length (th_invocations (inst w)) - 1" using i by simp
        moreover have "th_spaced limit (th_invocations (inst w))" using assms by (simp add: th_inv_def)
        ultimately have "fst x + limit \<le> fst (last (th_invocations (inst w)))"
          using i ne by (simp add: th_spaced_def last_conv_nth)
        then show ?thesis using l by simp
      qed
    qed
  qed
  show ?thesis using assms False sp
    by (auto simp: throttled_call_def th_inv_def setTimeout_def Let_def)
qed

lemma th_step_inv:
  assumes "th_inv limit w"
  shows "th_inv limit (th_step e w)"
proof (cases e)
  case (ThElapse t)
  show ?thesis using assms unfolding ThElapse
    by (auto simp: th_inv_def max_def)
next
  case ThTimer
  show ?thesis
  proof (cases "inThrottle (inst w)")
    case False
    with assms have "pending (sched w) = []" by (simp add: th_inv_def)
    then show ?thesis using assms ThTimer by simp
  next
    case True
    with assms obtain tm where tm: "pending (sched w) = [tm]"
      "tm_due tm = fst (last (th_invocations (inst w))) + limit"
      by (auto simp: th_inv_def)
    have cb: "th_exec (tm_callback tm) x d = d\<lparr>inThrottle := False\<rparr>"
      for x and d :: "'a throttled"
      by (cases "tm_callback tm") simp
    show ?thesis using assms True tm ThTimer
      by (auto simp: cb fired_def th_inv_def max_def)
  qed
next
  case (ThCall a)
  then show ?thesis using th_call_inv[OF assms] by simp
qed

lemma th_run_inv: "th_inv limit w \<Longrightarrow> th_inv limit (th_run es w)"
  by (induction es arbitrary: w) (simp_all add: th_step_inv)

lemma th_run_append: "th_run (es @ es') w = th_run es' (th_run es w)"
  by (induction es arbitrary: w) simp_all

lemma th_quiet_iff_no_timer:
  assumes "th_inv limit w"
  shows "inThrottle (inst w) \<longleftrightarrow> pending (sched w) \<noteq> []"
  using assms by (auto simp: th_inv_def split: if_splits)

lemmas th_eval = throttled_call_def throttle_def fresh_scheduler_def setTimeout_def fired_def
  Let_def

text \<open>
  C4. Take a throttle wrapper after any sequence of events. A call while no cooldown
  timer is pending (the first call, or a call after the cooldown callback has run)
  invokes the wrapped function at once, with its own arguments, and opens a cooldown:
  one timer, due \<open>limit\<close> later. A call while the cooldown timer is pending is
  dropped: it changes nothing (no invocation, no timer), and the run continues as if it
  had not been made. The cooldown timer is pending for at least \<open>limit\<close> after the
  last invocation. Once \<open>limit\<close> has passed and the host has run the cooldown
  callback, the next call invokes again. Any two recorded invocations are at least
  \<open>limit\<close> apart. For calls at 0, 10 and 60 with limit 50, the cooldown callback
  running when it is due, the invocations are those of the calls at 0 and 60.
\<close>

theorem throttle_drops_during_cooldown:
  assumes "w = th_run es (throttle limit fresh_scheduler)"
  shows "(pending (sched w) = [] \<longrightarrow>
            th_invocations (inst (th_step (ThCall a) w))
              = th_invocations (inst w) @ [(now (sched w), a)]
            \<and> pending (sched (th_step (ThCall a) w))
              = [\<lparr>tm_handle = Suc (last_handle (sched w)), tm_due = now (sched w) + limit,
                  tm_callback = ClearThrottle\<rparr>])
       \<and> (pending (sched w) \<noteq> [] \<longrightarrow>
            th_step (ThCall a) w = w
            \<and> th_run (es @ ThCall a # es') (throttle limit fresh_scheduler)
              = th_run (es @ es') (throttle limit fresh_scheduler))
       \<and> (th_invocations (inst w) \<noteq> []
            \<and> now (sched w) < fst (last (th_invocations (inst w))) + limit
            \<longrightarrow> pending (sched w) \<noteq> [])
       \<and> ((th_invocations (inst w) = [] \<or> fst (last (th_invocations (inst w))) + limit \<le> t)
            \<and> now (sched w) \<le> t
            \<longrightarrow> th_invocations (inst (th_run [ThElapse t, ThTimer, ThCall a] w))
                  = th_invocations (inst w) @ [(t, a)])
       \<and> (\<forall>j<length (th_invocations (inst w)). \<forall>i<j.
             fst (th_invocations (inst w) ! i) + limit \<le> fst (th_invocations (inst w) ! j))
       \<and> th_invocations (inst (th_run
             [ThElapse 0, ThCall x, ThElapse 10, ThCall y, ThElapse 50, ThTimer,
              ThElapse 60, ThCall z]
             (throttle 50 fresh_scheduler)))
           = [(0, x), (60, z)]"
proof (intro conjI)
  have inv: "th_inv limit w" using assms by (simp add: th_run_inv th_inv_fresh)
  have lim: "th_limit (inst w) = limit" using inv by (simp add: th_inv_def)
  note quiet = th_quiet_iff_no_timer[OF inv]
  show "pending (sched w) = [] \<longrightarrow>
            th_invocations (inst (th_step (ThCall a) w))
              = th_invocations (inst w) @ [(now (sched w), a)]
            \<and> pending (sched (th_step (ThCall a) w))
              = [\<lparr>tm_handle = Suc (last_handle (sched w)), tm_due = now (sched w) + limit,
                  tm_callback = ClearThrottle\<rparr>]"
    using quiet lim by (auto simp: throttled_call_def setTimeout_def Let_def)
  show "pending (sched w) \<noteq> [] \<longrightarrow>
            th_step (ThCall a) w = w
            \<and> th_run (es @ ThCall a # es') (throttle limit fresh_scheduler)
              = th_run (es @ es') (throttle limit fresh_scheduler)"
  proof
    assume "pending (sched w) \<noteq> []"
    with quiet have "th_step (ThCall a) w = w" by (simp add: throttled_call_def)
    then show "th_step (ThCall a) w = w
            \<and> th_run (es @ ThCall a # es') (throttle limit fresh_scheduler)
              = th_run (es @ es') (throttle limit fresh_scheduler)"
      using assms by (simp add: th_run_append)
  qed
  show "th_invocations (inst w) \<noteq> []
            \<and> now (sched w) < fst (last (th_invocations (inst w))) + limit
            \<longrightarrow> pending (sched w) \<noteq> []"
    using inv by (auto simp: th_inv_def split: if_splits)
  show "(th_invocations (inst w) = [] \<or> fst (last (th_invocations (inst w))) + limit \<le> t)
            \<and> now (sched w) \<le> t
            \<longrightarrow> th_invocations (inst (th_run [ThElapse t, ThTimer, ThCall a] w))
                  = th_invocations (inst w) @ [(t, a)]"
  proof
    assume h: "(th_invocations (inst w) = [] \<or> fst (last (th_invocations (inst w))) + limit \<le> t)
            \<and> now (sched w) \<le> t"
    let ?w1 = "th_step (ThElapse t) w"
    let ?w2 = "th_step ThTimer ?w1"
    have inv1: "th_inv limit ?w1" by (rule th_step_inv[OF inv])
    have now1: "now (sched ?w1) = t" using h by (simp add: max_def)
    have log1: "th_invocations (inst ?w1) = th_invocations (inst w)" by simp
    have inv2: "th_inv limit ?w2" by (rule th_step_inv[OF inv1])
    have p2: "pending (sched ?w2) = []"
    proof (cases "inThrottle (inst w)")
      case False
      with inv have "pending (sched w) = []" by (simp add: th_inv_def)
      then show ?thesis by simp
    next
      case True
      with inv obtain tm where tm: "pending (sched w) = [tm]"
        "tm_due tm = fst (last (th_invocations (inst w))) + limit"
        "th_invocations (inst w) \<noteq> []"
        by (auto simp: th_inv_def)
      with h have "tm_due tm \<le> t" by simp
      then show ?thesis using tm h by (simp add: fired_def max_def)
    qed
    have now2: "now (sched ?w2) = t" and log2: "th_invocations (inst ?w2) = th_invocations (inst w)"
    proof -
      have "now (sched ?w2) = t \<and> th_invocations (inst ?w2) = th_invocations (inst w)"
      proof (cases "pending (sched w)")
        case Nil
        then show ?thesis using now1 by simp
      next
        case (Cons tm rest)
        have cb: "th_exec (tm_callback tm) x d = d\<lparr>inThrottle := False\<rparr>"
          for x and d :: "'a throttled"
          by (cases "tm_callback tm") simp
        from Cons inv have "pending (sched w) = [tm]" by (auto simp: th_inv_def split: if_splits)
        then show ?thesis using h by (auto simp: cb fired_def max_def)
      qed
      then show "now (sched ?w2) = t" and "th_invocations (inst ?w2) = th_invocations (inst w)"
        by simp_all
    qed
    have q2: "\<not> inThrottle (inst ?w2)" using th_quiet_iff_no_timer[OF inv2] p2 by simp
    have "th_invocations (inst (throttled_call a ?w2)) = th_invocations (inst ?w2) @ [(now (sched ?w2), a)]"
      using q2 by (simp add: throttled_call_def setTimeout_def Let_def)
    then show "th_invocations (inst (th_run [ThElapse t, ThTimer, ThCall a] w))
                  = th_invocations (inst w) @ [(t, a)]"
      using now2 log2 by simp
  qed
  show "\<forall>j<length (th_invocations (inst w)). \<forall>i<j.
             fst (th_invocations (inst w) ! i) + limit \<le> fst (th_invocations (inst w) ! j)"
    using inv by (simp add: th_inv_def th_spaced_def)
  show "th_invocations (inst (th_run
             [ThElapse 0, ThCall x, ThElapse 10, ThCall y, ThElapse 50, ThTimer,
              ThElapse 60, ThCall z]
             (throttle 50 fresh_scheduler)))
           = [(0, x), (60, z)]"
    by (simp add: th_eval)
qed

theorem throttle_drops_during_cooldown_witness:
  "pending (sched (th_run [] (throttle 50 fresh_scheduler :: string th_world))) = []
   \<and> th_invocations (inst (th_step (ThCall ''a'') (th_run [] (throttle 50 fresh_scheduler))))
       = [(0, ''a'')]
   \<and> pending (sched (th_run [ThElapse 0, ThCall ''a'', ThElapse 10]
                        (throttle 50 fresh_scheduler :: string th_world))) \<noteq> []
   \<and> now (sched (th_run [ThElapse 0, ThCall ''a'', ThElapse 10]
                        (throttle 50 fresh_scheduler :: string th_world))) < 0 + 50
   \<and> th_step (ThCall ''b'') (th_run [ThElapse 0, ThCall ''a'', ThElapse 10]
                                 (throttle 50 fresh_scheduler))
       = th_run [ThElapse 0, ThCall ''a'', ThElapse 10] (throttle 50 fresh_scheduler)
   \<and> th_invocations (inst (th_run [ThElapse 60, ThTimer, ThCall ''c'']
         (th_run [ThElapse 0, ThCall ''a'', ThElapse 10] (throttle 50 fresh_scheduler))))
       = [(0, ''a''), (60, ''c'')]"
  using throttle_drops_during_cooldown
          [where w = "th_run [] (throttle 50 fresh_scheduler)" and es = "[]" and limit = 50
             and a = "''a''" and t = 0 and es' = "[]"
             and x = "''a''" and y = "''b''" and z = "''c''"]
        throttle_drops_during_cooldown
          [where w = "th_run [ThElapse 0, ThCall ''a'', ThElapse 10] (throttle 50 fresh_scheduler)"
             and es = "[ThElapse 0, ThCall ''a'', ThElapse 10]" and limit = 50
             and a = "''b''" and t = 60 and es' = "[]"
             and x = "''a''" and y = "''b''" and z = "''c''"]
        throttle_drops_during_cooldown
          [where w = "th_run [ThElapse 0, ThCall ''a'', ThElapse 10] (throttle 50 fresh_scheduler)"
             and es = "[ThElapse 0, ThCall ''a'', ThElapse 10]" and limit = 50
             and a = "''c''" and t = 60 and es' = "[]"
             and x = "''a''" and y = "''b''" and z = "''c''"]
  by (simp add: th_eval)


text \<open>
  The cooldown ends when its callback runs, not when the clock says so: a call that
  arrives before the host has run the callback is dropped, however late the callback
  is. With limit 0 the second of two calls in a row is dropped as well.
\<close>

lemma late_cooldown_callback:
  "th_invocations (inst (th_run
      [ThElapse 0, ThCall x, ThElapse 10, ThCall y, ThElapse 60, ThCall z, ThTimer]
      (throttle 50 fresh_scheduler)))
     = [(0, x)]
   \<and> th_invocations (inst (th_run [ThCall x, ThCall y] (throttle 0 fresh_scheduler)))
     = [(0, x)]"
  by (simp add: th_eval)


subsection \<open>debounce\<close>

lemma db_inv_fresh: "db_inv (debounce wait imm fresh_scheduler)"
  by (simp add: db_inv_def debounce_def fresh_scheduler_def)

lemma db_advance_inv:
  assumes "db_inv w"
  shows "db_inv (advance_to db_exec t w)
       \<and> last_handle (sched (advance_to db_exec t w)) = last_handle (sched w)
       \<and> now (sched (advance_to db_exec t w)) = max (now (sched w)) t
       \<and> db_wait (inst (advance_to db_exec t w)) = db_wait (inst w)
       \<and> db_immediate (inst (advance_to db_exec t w)) = db_immediate (inst w)"
proof (cases "pending (sched w)")
  case Nil
  then show ?thesis using assms by (simp add: advance_to_def run_due_none db_inv_def)
next
  case (Cons tm rest)
  with assms have p: "pending (sched w) = [tm]" by (auto simp: db_inv_def)
  obtain a where cb: "tm_callback tm = Later a" by (cases "tm_callback tm") auto
  show ?thesis
  proof (cases "tm_due tm \<le> t")
    case True
    show ?thesis using assms p True
      by (auto simp: advance_to_def run_due_single_due[OF p True] cb later_def db_inv_def
          max_def Let_def)
  next
    case False
    then have l: "t < tm_due tm" by simp
    show ?thesis using assms p l
      by (auto simp: advance_to_def run_due_single_later[OF p l] db_inv_def max_def)
  qed
qed

lemma db_executed:
  assumes "db_inv w"
  shows "pending (sched (executedFunction a w))
           = [\<lparr>tm_handle = Suc (last_handle (sched w)), tm_due = now (sched w) + db_wait (inst w),
               tm_callback = Later a\<rparr>]
       \<and> db_timeout (inst (executedFunction a w)) = Some (Suc (last_handle (sched w)))
       \<and> db_inv (executedFunction a w)
       \<and> now (sched (executedFunction a w)) = now (sched w)
       \<and> db_wait (inst (executedFunction a w)) = db_wait (inst w)
       \<and> db_immediate (inst (executedFunction a w)) = db_immediate (inst w)
       \<and> (\<not> db_immediate (inst w) \<longrightarrow>
            db_invocations (inst (executedFunction a w)) = db_invocations (inst w))"
  using assms
  by (cases "db_timeout (inst w)")
     (auto simp: executedFunction_def setTimeout_def clearTimeout_def db_inv_def Let_def)

lemma db_call_at_inv: "db_inv w \<Longrightarrow> db_inv (db_call_at c w)"
  using db_advance_inv[of w "fst c"] db_executed[of "advance_to db_exec (fst c) w" "snd c"]
  by (simp add: db_call_at_def)

lemma db_calls_inv: "db_inv w \<Longrightarrow> db_inv (db_calls cs w)"
  by (induction cs arbitrary: w) (simp_all add: db_call_at_inv)

lemma db_call_at_pending:
  assumes "db_inv w" "now (sched w) \<le> t"
  shows "pending (sched (db_call_at (t, a) w))
           = [\<lparr>tm_handle = Suc (last_handle (sched w)), tm_due = t + db_wait (inst w),
               tm_callback = Later a\<rparr>]"
  using db_advance_inv[OF assms(1), of t] db_executed[of "advance_to db_exec t w" a] assms(2)
  by (simp add: db_call_at_def max_def)

lemma db_first_call:
  "db_armed wait t a (db_call_at (t, a) (debounce wait False fresh_scheduler))"
  by (simp add: db_armed_def db_call_at_def advance_to_def run_due_none debounce_def
      fresh_scheduler_def executedFunction_def setTimeout_def Let_def)

lemma db_next_call:
  assumes "db_armed wait t a w" "t \<le> u" "u < t + wait"
  shows "db_armed wait u b (db_call_at (u, b) w)"
proof -
  from assms(1) obtain h where h: "db_timeout (inst w) = Some h"
    "pending (sched w) = [\<lparr>tm_handle = h, tm_due = t + wait, tm_callback = Later a\<rparr>]"
    by (auto simp: db_armed_def)
  have l: "u < tm_due \<lparr>tm_handle = h, tm_due = t + wait, tm_callback = Later a\<rparr>"
    using assms(3) by simp
  show ?thesis using assms h
    by (auto simp: db_armed_def db_call_at_def advance_to_def run_due_single_later[OF h(2) l]
        executedFunction_def setTimeout_def clearTimeout_def Let_def max_def)
qed

lemma db_burst_armed:
  assumes "db_armed wait t a w" "burst wait (t # map fst cs)"
  shows "db_armed wait (fst (last ((t, a) # cs))) (snd (last ((t, a) # cs))) (db_calls cs w)"
  using assms
proof (induction cs arbitrary: w t a)
  case Nil
  then show ?case by simp
next
  case (Cons c cs)
  obtain u b where c: "c = (u, b)" by (cases c)
  from Cons.prems(2) c have ub: "t \<le> u" "u < t + wait" "burst wait (u # map fst cs)" by simp_all
  have "db_armed wait u b (db_call_at (u, b) w)"
    by (rule db_next_call[OF Cons.prems(1) ub(1) ub(2)])
  from Cons.IH[OF this ub(3)] show ?case using c by simp
qed

lemma db_armed_fires:
  assumes "db_armed wait t a w"
  shows "db_invocations (inst (advance_to db_exec T w))
           = (if t + wait \<le> T then [(t + wait, a)] else [])"
proof -
  from assms obtain h where h: "db_timeout (inst w) = Some h"
    "pending (sched w) = [\<lparr>tm_handle = h, tm_due = t + wait, tm_callback = Later a\<rparr>]"
    by (auto simp: db_armed_def)
  show ?thesis
  proof (cases "t + wait \<le> T")
    case True
    then have d: "tm_due \<lparr>tm_handle = h, tm_due = t + wait, tm_callback = Later a\<rparr> \<le> T" by simp
    show ?thesis using assms True
      by (simp add: advance_to_def run_due_single_due[OF h(2) d] later_def db_armed_def max_def)
  next
    case False
    then have l: "T < tm_due \<lparr>tm_handle = h, tm_due = t + wait, tm_callback = Later a\<rparr>" by simp
    show ?thesis using assms False
      by (simp add: advance_to_def run_due_single_later[OF h(2) l] db_armed_def)
  qed
qed

lemmas db_eval = db_call_at_def executedFunction_def advance_to_def debounce_def later_def
  fresh_scheduler_def setTimeout_def clearTimeout_def run_due_none run_due_single_due
  run_due_single_later Let_def

text \<open>
  C5. Take a non-immediate debounce wrapper after any sequence of calls. A further call
  at time \<open>t\<close>, not before the present, leaves exactly one timer pending: a new one,
  due \<open>wait\<close> after \<open>t\<close>, holding the arguments of this call; whatever was
  scheduled before is cancelled. After a burst of calls on a new wrapper, at any time
  \<open>T\<close> the wrapped function has been invoked exactly once if \<open>T\<close> is at least
  \<open>wait\<close> after the last call, at that moment and with the last call's arguments,
  and not at all before. For calls at 0, 10 and 20 with wait 50 the one invocation is at
  70 with the arguments of the call at 20.
\<close>

theorem debounce_burst_fires_once:
  assumes "w = db_calls cs (debounce wait False fresh_scheduler)"
  shows "(now (sched w) \<le> t \<longrightarrow>
            pending (sched (db_call_at (t, a) w))
              = [\<lparr>tm_handle = Suc (last_handle (sched w)), tm_due = t + wait,
                  tm_callback = Later a\<rparr>])
       \<and> (cs \<noteq> [] \<and> burst wait (map fst cs) \<longrightarrow>
            db_invocations (inst (advance_to db_exec T w))
              = (if fst (last cs) + wait \<le> T then [(fst (last cs) + wait, snd (last cs))]
                 else []))
       \<and> db_invocations (inst (advance_to db_exec 70
            (db_calls [(0, x), (10, y), (20, z)] (debounce 50 False fresh_scheduler))))
           = [(70, z)]
       \<and> db_invocations (inst (advance_to db_exec 69
            (db_calls [(0, x), (10, y), (20, z)] (debounce 50 False fresh_scheduler))))
           = []"
proof (intro conjI)
  have inv: "db_inv w" using assms by (simp add: db_calls_inv db_inv_fresh)
  have wait_w: "db_wait (inst w) = wait"
  proof -
    have "db_inv v \<Longrightarrow> db_wait (inst (db_calls cs v)) = db_wait (inst v)" for v :: "'a db_world"
    proof (induction cs arbitrary: v)
      case Nil
      then show ?case by simp
    next
      case (Cons c cs)
      have "db_wait (inst (db_call_at c v)) = db_wait (inst v)"
        using db_advance_inv[OF Cons.prems, of "fst c"]
          db_executed[of "advance_to db_exec (fst c) v" "snd c"]
        by (simp add: db_call_at_def)
      then show ?case using Cons.IH[OF db_call_at_inv[OF Cons.prems]] by simp
    qed
    from this[OF db_inv_fresh] show ?thesis using assms by (simp add: debounce_def)
  qed
  show "now (sched w) \<le> t \<longrightarrow>
            pending (sched (db_call_at (t, a) w))
              = [\<lparr>tm_handle = Suc (last_handle (sched w)), tm_due = t + wait,
                  tm_callback = Later a\<rparr>]"
    using db_call_at_pending[OF inv] wait_w by simp
  show "cs \<noteq> [] \<and> burst wait (map fst cs) \<longrightarrow>
            db_invocations (inst (advance_to db_exec T w))
              = (if fst (last cs) + wait \<le> T then [(fst (last cs) + wait, snd (last cs))]
                 else [])"
  proof
    assume a: "cs \<noteq> [] \<and> burst wait (map fst cs)"
    then obtain c cs' where cs: "cs = c # cs'" by (cases cs) auto
    obtain t0 a0 where c: "c = (t0, a0)" by (cases c)
    have armed0: "db_armed wait t0 a0 (db_call_at (t0, a0) (debounce wait False fresh_scheduler))"
      by (rule db_first_call)
    have "burst wait (t0 # map fst cs')" using a cs c by simp
    from db_burst_armed[OF armed0 this]
    have "db_armed wait (fst (last cs)) (snd (last cs)) w"
      using assms cs c by simp
    from db_armed_fires[OF this] show "db_invocations (inst (advance_to db_exec T w))
              = (if fst (last cs) + wait \<le> T then [(fst (last cs) + wait, snd (last cs))]
                 else [])" .
  qed
  show "db_invocations (inst (advance_to db_exec 70
            (db_calls [(0, x), (10, y), (20, z)] (debounce 50 False fresh_scheduler))))
           = [(70, z)]"
    by (simp add: db_eval)
  show "db_invocations (inst (advance_to db_exec 69
            (db_calls [(0, x), (10, y), (20, z)] (debounce 50 False fresh_scheduler))))
           = []"
    by (simp add: db_eval)
qed


theorem debounce_burst_fires_once_witness:
  "now (sched (db_calls [(0, ''a''), (10, ''b''), (20, ''c'')] (debounce 50 False fresh_scheduler)))
     \<le> 30
   \<and> pending (sched (db_call_at (30, ''d'')
         (db_calls [(0, ''a''), (10, ''b''), (20, ''c'')] (debounce 50 False fresh_scheduler))))
       = [\<lparr>tm_handle = 4, tm_due = 80, tm_callback = Later ''d''\<rparr>]
   \<and> burst 50 (map fst [(0, ''a''), (10, ''b''), (20, ''c'')])
   \<and> db_invocations (inst (advance_to db_exec 1000
         (db_calls [(0, ''a''), (10, ''b''), (20, ''c'')] (debounce 50 False fresh_scheduler))))
       = [(70, ''c'')]"
  using debounce_burst_fires_once
          [where w = "db_calls [(0, ''a''), (10, ''b''), (20, ''c'')]
                        (debounce 50 False fresh_scheduler)"
             and cs = "[(0, ''a''), (10, ''b''), (20, ''c'')]" and wait = 50 and t = 30
             and a = "''d''" and T = 1000 and x = "''a''" and y = "''b''" and z = "''c''"]
  by (simp add: db_eval)

section \<open>One pending timer per instance\<close>

lemma pending_clearTimeout_opt:
  "pending (clearTimeout_opt x s) = filter (\<lambda>t. Some (tm_handle t) \<noteq> x) (pending s)"
  by (cases x) (simp_all add: clearTimeout_def)

lemma type_step_idle:
  assumes "pending (sched w) = []" "type_step w = Inr w'"
  shows "te_inv w'"
  using assms
  by (auto simp: type_step_def write_and_schedule_def setTimeout_def te_inv_def Let_def
      split: if_splits option.splits)

lemma stop_idle: "te_inv w \<Longrightarrow> pending (sched (stop w)) = []"
  by (auto simp: te_inv_def stop_def pending_clearTimeout_opt)

lemma stop_fields [simp]: "isPaused (inst (stop w)) = isPaused (inst w)"
  by (simp add: stop_def)

lemma te_step_inv:
  assumes "te_inv w" "if e = Resume then isPaused (inst w) else True" "te_step e w = Inr w'"
  shows "te_inv w'"
proof (cases e)
  case Tick
  show ?thesis
  proof (cases "pending (sched w)")
    case Nil
    with Tick assms show ?thesis by (simp add: tick_def)
  next
    case (Cons tm rest)
    with assms(1) have p: "pending (sched w) = [tm]" by (auto simp: te_inv_def)
    have "pending (sched (w\<lparr>sched := fired tm (sched w)\<rparr>)) = []"
      using p by (simp add: fired_def)
    moreover have "type_step (w\<lparr>sched := fired tm (sched w)\<rparr>) = Inr w'"
      using assms(3) Tick p by (simp add: tick_def fire_timer_def)
    ultimately show ?thesis by (rule type_step_idle)
  qed
next
  case Pause
  have "pending (sched (stop (w\<lparr>inst := (inst w)\<lparr>isPaused := True\<rparr>\<rparr>))) = []"
    using assms(1) by (auto simp: te_inv_def stop_def pending_clearTimeout_opt)
  then show ?thesis using assms(3) Pause by (auto simp: pause_def te_inv_def)
next
  case Resume
  with assms(2) have "isPaused (inst w)" by simp
  with assms(1) have "pending (sched w) = []" by (auto simp: te_inv_def)
  then have "pending (sched (w\<lparr>inst := (inst w)\<lparr>isPaused := False\<rparr>\<rparr>)) = []" by simp
  moreover have "type_step (w\<lparr>inst := (inst w)\<lparr>isPaused := False\<rparr>\<rparr>) = Inr w'"
    using assms(3) Resume by (simp add: resume_def start_def)
  ultimately show ?thesis by (rule type_step_idle)
next
  case Reset
  then show ?thesis using assms(3) stop_idle[OF assms(1)]
    by (auto simp: reset_def te_inv_def Let_def split: option.splits)
next
  case Destroy
  then show ?thesis using assms(3) stop_idle[OF assms(1)]
    by (auto simp: destroy_def te_inv_def Let_def split: option.splits)
next
  case (ChangeTexts ts)
  let ?v = "w\<lparr>inst := (inst w)\<lparr>texts := texts_of ts\<rparr>\<rparr>"
  have "te_inv ?v" using assms(1) by (simp add: te_inv_def)
  from stop_idle[OF this] assms(3) ChangeTexts
  obtain w1 where w1: "reset ?v = Inr w1" "pending (sched w1) = []" "type_step w1 = Inr w'"
    by (auto simp: changeTexts_def reset_def start_def Let_def split: option.splits sum.splits)
  from type_step_idle[OF w1(2) w1(3)] show ?thesis .
qed

lemma te_run_inv:
  "te_inv w \<Longrightarrow> resume_when_paused es w \<Longrightarrow> te_run es w = Inr w' \<Longrightarrow> te_inv w'"
proof (induction es arbitrary: w)
  case Nil
  then show ?case by simp
next
  case (Cons e es)
  from Cons.prems(3) obtain w1 where w1: "te_step e w = Inr w1" "te_run es w1 = Inr w'"
    by (cases "te_step e w") (simp_all add: and_then_def)
  have "te_inv w1" using te_step_inv[OF Cons.prems(1) _ w1(1)] Cons.prems(2) by simp
  moreover have "resume_when_paused es w1" using Cons.prems(2) w1(1) by simp
  ultimately show ?case using Cons.IH w1(2) by blast
qed

lemma new_te_inv:
  assumes "new_TypingEffect el txts opts s = Inr w" "pending s = []"
  shows "te_inv w"
proof (cases "el = None \<or> length (texts_of txts) = 0")
  case True
  then show ?thesis using assms by (auto simp: new_TypingEffect_def init_def te_inv_def)
next
  case False
  then show ?thesis using assms
    by (intro type_step_idle[where w' = w and w = "\<lparr>inst = \<lparr>element = Some [], texts = texts_of txts, options = opts,
                    currentTextIndex = 0, currentCharIndex = 0, isDeleting = False,
                    isPaused = False, timeoutId = None\<rparr>, sched = s\<rparr>"])
       (auto simp: new_TypingEffect_def init_def start_def)
qed

lemma typeLine_idle:
  assumes "pending (sched w) = []" "typeLine w = Inr w'"
  shows "ml_inv w'"
  using assms
  by (auto simp: typeLine_def setTimeout_def ml_inv_def Let_def split: if_splits)

lemma ml_stop_idle: "ml_inv w \<Longrightarrow> pending (sched (ml_stop w)) = []"
  by (auto simp: ml_inv_def ml_stop_def pending_clearTimeout_opt)

lemma ml_step_inv:
  assumes "ml_inv w" "ml_step e w = Inr w'"
  shows "ml_inv w'"
proof (cases e)
  case MTick
  show ?thesis
  proof (cases "pending (sched w)")
    case Nil
    with MTick assms show ?thesis by (simp add: ml_tick_def)
  next
    case (Cons tm rest)
    with assms(1) have p: "pending (sched w) = [tm]" by (auto simp: ml_inv_def)
    have "pending (sched (w\<lparr>sched := fired tm (sched w)\<rparr>)) = []"
      using p by (simp add: fired_def)
    moreover have "typeLine (w\<lparr>sched := fired tm (sched w)\<rparr>) = Inr w'"
      using assms(2) MTick p by (simp add: ml_tick_def ml_fire_timer_def)
    ultimately show ?thesis by (rule typeLine_idle)
  qed
next
  case MReset
  then show ?thesis using assms(2) ml_stop_idle[OF assms(1)]
    by (auto simp: ml_reset_def ml_inv_def Let_def)
next
  case MDestroy
  then show ?thesis using assms(2) ml_stop_idle[OF assms(1)]
    by (auto simp: ml_destroy_def ml_inv_def Let_def split: option.splits)
qed

lemma ml_run_inv: "ml_inv w \<Longrightarrow> ml_run es w = Inr w' \<Longrightarrow> ml_inv w'"
proof (induction es arbitrary: w)
  case Nil
  then show ?case by simp
next
  case (Cons e es)
  from Cons.prems(2) obtain w1 where w1: "ml_step e w = Inr w1" "ml_run es w1 = Inr w'"
    by (cases "ml_step e w") (simp_all add: and_then_def)
  from ml_step_inv[OF Cons.prems(1) w1(1)] Cons.IH w1(2) show ?case by blast
qed

lemma new_ml_inv:
  assumes "new_MultiLineTypingEffect c ls mopts s = Inr w" "pending s = []"
  shows "ml_inv w"
proof (cases "c = None \<or> length ls = 0")
  case True
  then show ?thesis using assms by (auto simp: new_MultiLineTypingEffect_def ml_init_def ml_inv_def)
next
  case False
  let ?v = "\<lparr>inst = \<lparr>container = Some (map LineDiv [0..<length ls]), lines = ls, ml_opts = mopts,
                      currentLineIndex = 0, ml_currentCharIndex = 0, ml_timeoutId = None,
                      elements = replicate (length ls) []\<rparr>,
             sched = s\<rparr>"
  have "typeLine ?v = Inr w" using assms(1) False
    by (auto simp: new_MultiLineTypingEffect_def ml_init_def ml_start_def Let_def)
  moreover have "pending (sched ?v) = []" using assms(2) by simp
  ultimately show ?thesis using typeLine_idle by blast
qed


text \<open>
  C9, as the spec states it, fails. \<^verbatim>\<open>type()\<close> and \<^verbatim>\<open>typeLine()\<close> cancel nothing
  before they schedule, and \<^verbatim>\<open>throttle\<close> holds no handle at all. \<^verbatim>\<open>resume()\<close> on
  the running instance \<open>w_first_char\<close> schedules timer 2 while timer 1 is pending.
\<close>

theorem second_timer_after_resume_counterexample:
  "new_TypingEffect (Some ''old'') (TextArray [''ab'']) default_options fresh_scheduler
     = Inr w_first_char
   \<and> pending (sched w_first_char) = [\<lparr>tm_handle = 1, tm_due = 100, tm_callback = ()\<rparr>]
   \<and> te_run [Resume] w_first_char = Inr w_resume_active
   \<and> pending (sched w_resume_active)
       = [\<lparr>tm_handle = 1, tm_due = 100, tm_callback = ()\<rparr>,
          \<lparr>tm_handle = 2, tm_due = 2000, tm_callback = ()\<rparr>]"
  by (simp add: te_defs w_first_char_def w_resume_active_def)

text \<open>
  C9, amended. A single-text typewriter built on a host with no timer pending, and then
  driven by ticks, \<^verbatim>\<open>pause\<close>, \<^verbatim>\<open>reset\<close>, \<^verbatim>\<open>destroy\<close>, \<^verbatim>\<open>changeTexts\<close> and
  by \<^verbatim>\<open>resume\<close> on a paused instance only, has at most one timer pending at any
  time; so has a multi-line typewriter driven by ticks, \<^verbatim>\<open>reset\<close> and
  \<^verbatim>\<open>destroy\<close>; so has a debounce wrapper (either mode), after any calls and at
  any time; and so has a throttle wrapper after any sequence of events: calls, time
  passing, and the host running the cooldown callback when it is due or later.
\<close>

theorem at_most_one_pending_timer:
  "(new_TypingEffect el txts opts s = Inr w0 \<and> pending s = []
      \<and> resume_when_paused es w0 \<and> te_run es w0 = Inr w
      \<longrightarrow> length (pending (sched w)) \<le> 1)
   \<and> (new_MultiLineTypingEffect c ls mopts s' = Inr m0 \<and> pending s' = []
      \<and> ml_run mes m0 = Inr m
      \<longrightarrow> length (pending (sched m)) \<le> 1)
   \<and> length (pending (sched (db_calls dcs (debounce wait imm fresh_scheduler)))) \<le> 1
   \<and> length (pending (sched (advance_to db_exec T
        (db_calls dcs (debounce wait imm fresh_scheduler))))) \<le> 1
   \<and> length (pending (sched (th_run tes (throttle limit fresh_scheduler)))) \<le> 1"
proof (intro conjI)
  show "new_TypingEffect el txts opts s = Inr w0 \<and> pending s = []
      \<and> resume_when_paused es w0 \<and> te_run es w0 = Inr w
      \<longrightarrow> length (pending (sched w)) \<le> 1"
  proof
    assume a: "new_TypingEffect el txts opts s = Inr w0 \<and> pending s = []
      \<and> resume_when_paused es w0 \<and> te_run es w0 = Inr w"
    then have "te_inv w0" using new_te_inv by blast
    with a have "te_inv w" using te_run_inv by blast
    then show "length (pending (sched w)) \<le> 1" by (auto simp: te_inv_def)
  qed
  show "new_MultiLineTypingEffect c ls mopts s' = Inr m0 \<and> pending s' = []
      \<and> ml_run mes m0 = Inr m
      \<longrightarrow> length (pending (sched m)) \<le> 1"
  proof
    assume a: "new_MultiLineTypingEffect c ls mopts s' = Inr m0 \<and> pending s' = []
      \<and> ml_run mes m0 = Inr m"
    then have "ml_inv m0" using new_ml_inv by blast
    with a have "ml_inv m" using ml_run_inv by blast
    then show "length (pending (sched m)) \<le> 1" by (auto simp: ml_inv_def)
  qed
  have d: "db_inv (db_calls dcs (debounce wait imm fresh_scheduler))"
    by (simp add: db_calls_inv db_inv_fresh)
  then show "length (pending (sched (db_calls dcs (debounce wait imm fresh_scheduler)))) \<le> 1"
    by (auto simp: db_inv_def)
  have "db_inv (advance_to db_exec T (db_calls dcs (debounce wait imm fresh_scheduler)))"
    using db_advance_inv[OF d] by blast
  then show "length (pending (sched (advance_to db_exec T
        (db_calls dcs (debounce wait imm fresh_scheduler))))) \<le> 1"
    by (auto simp: db_inv_def)
  have "th_inv limit (th_run tes (throttle limit fresh_scheduler))"
    by (simp add: th_run_inv th_inv_fresh)
  then show "length (pending (sched (th_run tes (throttle limit fresh_scheduler)))) \<le> 1"
    by (auto simp: th_inv_def split: if_splits)
qed

theorem at_most_one_pending_timer_witness:
  "new_TypingEffect (Some ''old'') (TextArray [''ab'']) default_options fresh_scheduler
     = Inr w_first_char
   \<and> pending (fresh_scheduler :: unit scheduler) = []
   \<and> resume_when_paused [Pause, Pause, Resume, Tick] w_first_char
   \<and> (\<exists>w. te_run [Pause, Pause, Resume, Tick] w_first_char = Inr w
          \<and> length (pending (sched w)) = 1)
   \<and> new_MultiLineTypingEffect (Some [Foreign]) [''c''] ml_default_options fresh_scheduler
       = Inr m_first_char
   \<and> (\<exists>m. ml_run [MTick, MReset] m_first_char = Inr m \<and> length (pending (sched m)) = 0)
   \<and> length (pending (sched (db_calls [(0, ''a''), (10, ''b'')]
                 (debounce 50 False fresh_scheduler)))) = 1
   \<and> length (pending (sched (th_run [ThElapse 0, ThCall ''a'', ThElapse 10, ThCall ''b'']
                 (throttle 50 fresh_scheduler)))) = 1"
proof -
  have a: "new_TypingEffect (Some ''old'') (TextArray [''ab'']) default_options fresh_scheduler
     = Inr w_first_char"
    by (rule w_first_char_constructed)
  have b: "resume_when_paused [Pause, Pause, Resume, Tick] w_first_char"
    by (simp add: te_defs w_first_char_def)
  have c: "\<exists>w. te_run [Pause, Pause, Resume, Tick] w_first_char = Inr w
          \<and> length (pending (sched w)) = 1"
    by (simp add: te_defs w_first_char_def)
  have d: "new_MultiLineTypingEffect (Some [Foreign]) [''c''] ml_default_options fresh_scheduler
       = Inr m_first_char"
    by (rule m_first_char_constructed)
  have e: "\<exists>m. ml_run [MTick, MReset] m_first_char = Inr m \<and> length (pending (sched m)) = 0"
    by (simp add: ml_defs m_first_char_def ml_reset_def ml_stop_def clearTimeout_def)
  have f: "length (pending (sched (db_calls [(0, ''a''), (10, ''b'')]
                 (debounce 50 False fresh_scheduler)))) = 1"
    by (simp add: db_eval)
  have g: "length (pending (sched (th_run [ThElapse 0, ThCall ''a'', ThElapse 10, ThCall ''b'']
                 (throttle 50 fresh_scheduler)))) = 1"
    by (simp add: th_eval)
  from c obtain w where w: "te_run [Pause, Pause, Resume, Tick] w_first_char = Inr w" by blast
  from e obtain m where m: "ml_run [MTick, MReset] m_first_char = Inr m" by blast
  have h: "length (pending (sched w)) \<le> 1"
    using at_most_one_pending_timer
            [where el = "Some ''old''" and txts = "TextArray [''ab'']" and opts = default_options
               and s = fresh_scheduler and ?w0.0 = w_first_char
               and es = "[Pause, Pause, Resume, Tick]" and w = w
               and c = "Some [Foreign]" and ls = "[''c'']" and mopts = ml_default_options
               and s' = fresh_scheduler and ?m0.0 = m_first_char and mes = "[MTick, MReset]"
               and m = m and dcs = "[(0, ''a''), (10, ''b'')]" and wait = 50 and imm = False
               and T = 10
               and tes = "[ThElapse 0, ThCall ''a'', ThElapse 10, ThCall ''b'']"
               and limit = 50]
          a b w
    by (simp add: fresh_scheduler_def)
  from h a b c d e f g show ?thesis by (simp add: fresh_scheduler_def)
qed


end
